theory Spec2Isabelle
  imports Main "HOL-Library.Multiset"
begin

section \<open>Strings and lines\<close>

text \<open>
  A JavaScript string is modelled as a \<^typ>\<open>string\<close>: a list of characters, one per code
  unit (the model covers code units below 256).  A file or a patch is cut into lines at
  the newline character.
\<close>

definition nl :: char where
  "nl = CHR 0x0A"

text \<open>\<^verbatim>\<open>s.startsWith(p)\<close>\<close>

definition startsWith :: "string \<Rightarrow> string \<Rightarrow> bool" where
  "startsWith s p = (take (length p) s = p)"

text \<open>\<^verbatim>\<open>s.endsWith("\n")\<close>\<close>

definition endsWith_nl :: "string \<Rightarrow> bool" where
  "endsWith_nl s = (s \<noteq> [] \<and> last s = nl)"

text \<open>
  White space as \<^verbatim>\<open>String.prototype.trim\<close> sees it, among the code units below 256:
  tab, line feed, vertical tab, form feed, carriage return, space and no-break space.
\<close>

definition is_space :: "char \<Rightarrow> bool" where
  "is_space c = (c \<in> set [CHR 0x09, CHR 0x0A, CHR 0x0B, CHR 0x0C, CHR 0x0D, CHR 0x20, CHR 0xA0])"

definition trim :: "string \<Rightarrow> string" where
  "trim s = rev (dropWhile is_space (rev (dropWhile is_space s)))"

text \<open>\<^verbatim>\<open>s.split(c)\<close> for a one-character separator: never the empty list.\<close>

fun split_on :: "char \<Rightarrow> string \<Rightarrow> string list" where
  "split_on c [] = [[]]"
| "split_on c (x # xs) =
     (if x = c then [] # split_on c xs
      else (case split_on c xs of [] \<Rightarrow> [[x]] | l # ls \<Rightarrow> (x # l) # ls))"

text \<open>\<^verbatim>\<open>xs.join(sep)\<close>\<close>

fun join :: "string \<Rightarrow> string list \<Rightarrow> string" where
  "join sep [] = []"
| "join sep [x] = x"
| "join sep (x # y # ys) = x @ sep @ join sep (y # ys)"

text \<open>
  Truthiness of an optional string (\<^verbatim>\<open>string | undefined\<close>): \<^verbatim>\<open>undefined\<close> and the empty
  string are falsy.
\<close>

definition truthy :: "string option \<Rightarrow> bool" where
  "truthy v = (case v of None \<Rightarrow> False | Some s \<Rightarrow> s \<noteq> [])"

section \<open>Data model\<close>

text \<open>
  \<^verbatim>\<open>UpdateChunk\<close>: the optional fields are options; \<^verbatim>\<open>is_end_of_file\<close> is
  \<^verbatim>\<open>true\<close> or \<^verbatim>\<open>undefined\<close> when it comes from the parser.
\<close>

record UpdateChunk =
  old_lines :: "string list"
  new_lines :: "string list"
  change_context :: "string option"
  is_end_of_file :: "bool option"

text \<open>
  \<^verbatim>\<open>Hunk = AddHunk | DeleteHunk | UpdateHunk\<close>: \<open>Add path contents\<close>, \<open>Delete path\<close>,
  \<open>Update path move_path chunks\<close>.
\<close>

datatype Hunk =
    Add string string
  | Delete string
  | Update string "string option" "UpdateChunk list"

record AffectedPaths =
  added :: "string list"
  modified :: "string list"
  deleted :: "string list"

text \<open>
  What the code throws: \<open>Error msg\<close> is \<^verbatim>\<open>new Error(msg)\<close>; \<open>TypeError\<close> is a method call on
  \<^verbatim>\<open>undefined\<close>; \<open>FsError path\<close> is a failure of a file-system call on that path (such as
  \<^verbatim>\<open>ENOENT\<close>).
\<close>

datatype error = Error string | TypeError | FsError string

section \<open>Patch parser\<close>

text \<open>\<^verbatim>\<open>line.split(":", 2)[1]?.trim()\<close>\<close>

definition header_path :: "string \<Rightarrow> string option" where
  "header_path line =
     (case take 2 (split_on (CHR '':'') line) of
        [a, b] \<Rightarrow> Some (trim b)
      | _ \<Rightarrow> None)"

text \<open>
  \<^verbatim>\<open>parsePatchHeader\<close> returns \<^verbatim>\<open>null\<close> (here \<open>None\<close>) or
  \<^verbatim>\<open>{ filePath, movePath, nextIdx }\<close>.  Reading \<^verbatim>\<open>lines[idx]\<close> outside the array gives
  \<^verbatim>\<open>undefined\<close>, and \<^verbatim>\<open>undefined.startsWith\<close> throws.
\<close>

definition parsePatchHeader ::
    "string list \<Rightarrow> nat \<Rightarrow> error + (string \<times> string option \<times> nat) option" where
  "parsePatchHeader lines idx =
     (if length lines \<le> idx then Inl TypeError
      else
        let line = lines ! idx in
        if startsWith line ''*** Add File:'' then
          (case header_path line of
             None \<Rightarrow> Inr None
           | Some filePath \<Rightarrow>
               Inr (if filePath = [] then None else Some (filePath, None, idx + 1)))
        else if startsWith line ''*** Delete File:'' then
          (case header_path line of
             None \<Rightarrow> Inr None
           | Some filePath \<Rightarrow>
               Inr (if filePath = [] then None else Some (filePath, None, idx + 1)))
        else if startsWith line ''*** Update File:'' then
          (let (movePath, nextIdx) =
                 (if idx + 1 < length lines \<and> startsWith (lines ! (idx + 1)) ''*** Move to:''
                  then (header_path (lines ! (idx + 1)), idx + 2)
                  else (None, idx + 1))
           in case header_path line of
                None \<Rightarrow> Inr None
              | Some filePath \<Rightarrow>
                  Inr (if filePath = [] then None else Some (filePath, movePath, nextIdx)))
        else Inr None)"

text \<open>
  The inner loop of \<^verbatim>\<open>parseUpdateChunks\<close>, which reads the body of one chunk from line
  \<open>i\<close> on: it returns \<^verbatim>\<open>oldLines\<close>, \<^verbatim>\<open>newLines\<close>, \<^verbatim>\<open>isEndOfFile\<close> and the index
  after the body.
\<close>

function chunk_body ::
    "string list \<Rightarrow> nat \<Rightarrow> string list \<Rightarrow> string list \<Rightarrow>
     string list \<times> string list \<times> bool \<times> nat" where
  "chunk_body lines i oldLines newLines =
     (if i < length lines \<and> \<not> startsWith (lines ! i) ''@@'' \<and> \<not> startsWith (lines ! i) ''***''
      then
        (let changeLine = lines ! i in
         if changeLine = ''*** End of File'' then (oldLines, newLines, True, i + 1)
         else if startsWith changeLine '' '' then
           chunk_body lines (i + 1) (oldLines @ [drop 1 changeLine]) (newLines @ [drop 1 changeLine])
         else if startsWith changeLine ''-'' then
           chunk_body lines (i + 1) (oldLines @ [drop 1 changeLine]) newLines
         else if startsWith changeLine ''+'' then
           chunk_body lines (i + 1) oldLines (newLines @ [drop 1 changeLine])
         else chunk_body lines (i + 1) oldLines newLines)
      else (oldLines, newLines, False, i))"
  by pat_completeness auto
termination
  by (relation "measure (\<lambda>(lines, i, oldLines, newLines). length lines - i)") auto

declare chunk_body.simps [simp del]

lemma chunk_body_index:
  "chunk_body lines i oldLines newLines = (ol, nw, eof, i') \<Longrightarrow> i \<le> i'"
proof (induction lines i oldLines newLines rule: chunk_body.induct)
  case (1 lines i oldLines newLines)
  note e = "1.prems" [unfolded chunk_body.simps [of lines i oldLines newLines]]
  show ?case
    using e "1.IH" by (fastforce simp: Let_def split: if_splits)
qed

text \<open>
  The outer loop of \<^verbatim>\<open>parseUpdateChunks\<close>: a line that starts with \<^verbatim>\<open>@@\<close> opens a chunk,
  any other line is skipped, a line that starts with \<^verbatim>\<open>***\<close> ends the hunk.
\<close>

function parseUpdateChunks_loop ::
    "string list \<Rightarrow> nat \<Rightarrow> UpdateChunk list \<Rightarrow> UpdateChunk list \<times> nat" where
  "parseUpdateChunks_loop lines i chunks =
     (if i < length lines \<and> \<not> startsWith (lines ! i) ''***'' then
        (if startsWith (lines ! i) ''@@'' then
           (let contextLine = trim (drop 2 (lines ! i)) in
            case chunk_body lines (i + 1) [] [] of
              (oldLines, newLines, isEndOfFile, i') \<Rightarrow>
                parseUpdateChunks_loop lines i'
                  (chunks @
                   [\<lparr>old_lines = oldLines, new_lines = newLines,
                     change_context = (if contextLine = [] then None else Some contextLine),
                     is_end_of_file = (if isEndOfFile then Some True else None)\<rparr>]))
         else parseUpdateChunks_loop lines (i + 1) chunks)
      else (chunks, i))"
  by pat_completeness auto
termination
  apply (relation "measure (\<lambda>(lines, i, chunks). length lines - i)")
    apply simp
   apply (auto dest!: chunk_body_index [OF sym])
  done

declare parseUpdateChunks_loop.simps [simp del]

lemma parseUpdateChunks_loop_index:
  "parseUpdateChunks_loop lines i chunks = (cs, i') \<Longrightarrow> i \<le> i'"
proof (induction lines i chunks rule: parseUpdateChunks_loop.induct)
  case (1 lines i chunks)
  note e = "1.prems" [unfolded parseUpdateChunks_loop.simps [of lines i chunks]]
  show ?case
    using e "1.IH"
    by (fastforce simp: Let_def split: if_splits prod.splits dest: chunk_body_index)
qed

definition parseUpdateChunks :: "string list \<Rightarrow> nat \<Rightarrow> UpdateChunk list \<times> nat" where
  "parseUpdateChunks lines startIdx = parseUpdateChunks_loop lines startIdx []"

text \<open>
  The loop of \<^verbatim>\<open>parseAddContent\<close>: every line that starts with \<^verbatim>\<open>+\<close> adds its remainder and
  a newline to the content.
\<close>

function parseAddContent_loop :: "string list \<Rightarrow> nat \<Rightarrow> string \<Rightarrow> string \<times> nat" where
  "parseAddContent_loop lines i content =
     (if i < length lines \<and> \<not> startsWith (lines ! i) ''***'' then
        parseAddContent_loop lines (i + 1)
          (if startsWith (lines ! i) ''+'' then content @ drop 1 (lines ! i) @ [nl] else content)
      else (content, i))"
  by pat_completeness auto
termination
  by (relation "measure (\<lambda>(lines, i, content). length lines - i)") auto

declare parseAddContent_loop.simps [simp del]

lemma parseAddContent_loop_index:
  "parseAddContent_loop lines i content = (c, i') \<Longrightarrow> i \<le> i'"
proof (induction lines i content rule: parseAddContent_loop.induct)
  case (1 lines i content)
  note e = "1.prems" [unfolded parseAddContent_loop.simps [of lines i content]]
  show ?case
    using e "1.IH" by (fastforce split: if_splits)
qed

text \<open>After the loop, one final newline is cut off (\<^verbatim>\<open>content.slice(0, -1)\<close>).\<close>

definition parseAddContent :: "string list \<Rightarrow> nat \<Rightarrow> string \<times> nat" where
  "parseAddContent lines startIdx =
     (case parseAddContent_loop lines startIdx [] of
        (content, i) \<Rightarrow> (if endsWith_nl content then butlast content else content, i))"

text \<open>\<^verbatim>\<open>xs.findIndex(P)\<close>: the first index whose element satisfies \<open>P\<close>, or \<open>-1\<close>.\<close>

fun findIndex_from :: "('a \<Rightarrow> bool) \<Rightarrow> 'a list \<Rightarrow> nat \<Rightarrow> int" where
  "findIndex_from P [] i = - 1"
| "findIndex_from P (x # xs) i = (if P x then int i else findIndex_from P xs (Suc i))"

definition findIndex :: "('a \<Rightarrow> bool) \<Rightarrow> 'a list \<Rightarrow> int" where
  "findIndex P xs = findIndex_from P xs 0"

lemma parsePatchHeader_index:
  "parsePatchHeader lines idx = Inr (Some (filePath, movePath, nextIdx)) \<Longrightarrow>
   idx < nextIdx \<and> idx < length lines"
  by (auto simp: parsePatchHeader_def Let_def split: if_splits option.splits)

text \<open>
  The main loop of \<^verbatim>\<open>parsePatch\<close>: \<^verbatim>\<open>while (i < endIdx)\<close>, with the hunks collected so
  far.
\<close>

function parsePatch_loop :: "string list \<Rightarrow> nat \<Rightarrow> nat \<Rightarrow> Hunk list \<Rightarrow> error + Hunk list" where
  "parsePatch_loop lines endIdx i hunks =
     (if i < endIdx then
        (case parsePatchHeader lines i of
           Inl e \<Rightarrow> Inl e
         | Inr None \<Rightarrow> parsePatch_loop lines endIdx (i + 1) hunks
         | Inr (Some (filePath, movePath, nextIdx)) \<Rightarrow>
             if startsWith (lines ! i) ''*** Add File:'' then
               (case parseAddContent lines nextIdx of
                  (content, nextIdx') \<Rightarrow>
                    parsePatch_loop lines endIdx nextIdx' (hunks @ [Add filePath content]))
             else if startsWith (lines ! i) ''*** Delete File:'' then
               parsePatch_loop lines endIdx nextIdx (hunks @ [Delete filePath])
             else if startsWith (lines ! i) ''*** Update File:'' then
               (case parseUpdateChunks lines nextIdx of
                  (chunks, nextIdx') \<Rightarrow>
                    parsePatch_loop lines endIdx nextIdx' (hunks @ [Update filePath movePath chunks]))
             else parsePatch_loop lines endIdx (i + 1) hunks)
      else Inr hunks)"
  by pat_completeness auto
termination
  apply (relation "measure (\<lambda>(lines, endIdx, i, hunks). endIdx - i)")
      apply simp
     apply simp
    apply (auto simp: parseAddContent_def parseUpdateChunks_def split: prod.splits
      dest!: parsePatchHeader_index parseAddContent_loop_index parseUpdateChunks_loop_index
             parseAddContent_loop_index [OF sym] parseUpdateChunks_loop_index [OF sym])
  done

declare parsePatch_loop.simps [simp del]

definition parsePatch :: "string \<Rightarrow> error + Hunk list" where
  "parsePatch patchText =
     (let lines = split_on nl patchText;
          beginIdx = findIndex (\<lambda>line. trim line = ''*** Begin Patch'') lines;
          endIdx = findIndex (\<lambda>line. trim line = ''*** End Patch'') lines
      in if beginIdx = - 1 \<or> endIdx = - 1 \<or> endIdx \<le> beginIdx
         then Inl (Error ''Invalid patch format: missing Begin/End markers'')
         else parsePatch_loop lines (nat endIdx) (nat (beginIdx + 1)) [])"

section \<open>Sequence matcher\<close>

text \<open>
  \<^verbatim>\<open>lines[k]\<close> for an integer index: \<^verbatim>\<open>undefined\<close> (here \<open>None\<close>) outside the array.
\<close>

definition line_at :: "string list \<Rightarrow> int \<Rightarrow> string option" where
  "line_at lines k =
     (if 0 \<le> k \<and> k < int (length lines) then Some (lines ! nat k) else None)"

text \<open>
  The inner loop of \<^verbatim>\<open>seekSequence\<close>: \<^verbatim>\<open>for (j = 0; j < pattern.length; j++)
  if (lines[i + j] !== pattern[j]) { matches = false; break }\<close>.  The recursion runs over
  the remaining pattern elements, \<open>k\<close> is \<open>i + j\<close>.
\<close>

fun seq_matches :: "string list \<Rightarrow> string list \<Rightarrow> int \<Rightarrow> bool" where
  "seq_matches lines [] k = True"
| "seq_matches lines (p # ps) k =
     (if line_at lines k \<noteq> Some p then False else seq_matches lines ps (k + 1))"

text \<open>
  The outer loop: \<^verbatim>\<open>for (i = startIndex; i <= lines.length - pattern.length; i++)\<close>,
  returning \<open>i\<close> at the first match and \<open>-1\<close> when the loop runs out.
\<close>

function seek_from :: "string list \<Rightarrow> string list \<Rightarrow> int \<Rightarrow> int" where
  "seek_from lines pattern i =
     (if i \<le> int (length lines) - int (length pattern)
      then (if seq_matches lines pattern i then i else seek_from lines pattern (i + 1))
      else - 1)"
  by pat_completeness auto
termination
  by (relation "measure (\<lambda>(lines, pattern, i).
        nat (int (length lines) - int (length pattern) - i + 1))") auto

declare seek_from.simps [simp del]

definition seekSequence :: "string list \<Rightarrow> string list \<Rightarrow> int \<Rightarrow> int" where
  "seekSequence lines pattern startIndex =
     (if length pattern = 0 then - 1 else seek_from lines pattern startIndex)"

text \<open>
  The specification's reading of a match: the pattern occurs in \<open>lines\<close> at index \<open>i\<close> as a
  contiguous, element-wise equal run that lies within the bounds of \<open>lines\<close>.
\<close>

definition occurs_at :: "string list \<Rightarrow> string list \<Rightarrow> int \<Rightarrow> bool" where
  "occurs_at lines pattern i =
     (0 \<le> i \<and> nat i + length pattern \<le> length lines \<and>
      take (length pattern) (drop (nat i) lines) = pattern)"

section \<open>Patch applier\<close>

text \<open>A replacement is the triple \<^verbatim>\<open>[startIdx, oldLen, newSegment]\<close>.\<close>

type_synonym Replacement = "int \<times> int \<times> string list"

text \<open>
  The body of the loop of \<^verbatim>\<open>computeReplacements\<close> for one chunk, on the state
  \<^verbatim>\<open>(replacements, lineIndex)\<close>.  First the context is looked up (the pair it yields is
  \<^verbatim>\<open>contextIdx\<close> and the new \<^verbatim>\<open>lineIndex\<close>), then the chunk is an insertion or a search for
  \<^verbatim>\<open>old_lines\<close>, with one retry without a final empty line.
\<close>

definition chunk_step ::
    "string list \<Rightarrow> string \<Rightarrow> Replacement list \<times> int \<Rightarrow> UpdateChunk \<Rightarrow>
     error + Replacement list \<times> int" where
  "chunk_step originalLines filePath st chunk =
     (case st of (replacements, lineIndex0) \<Rightarrow>
      (case
         (case change_context chunk of
            None \<Rightarrow> Inr (- 1, lineIndex0)
          | Some ctx \<Rightarrow>
              if ctx = [] then Inr (- 1, lineIndex0)
              else
                (let contextIdx = seekSequence originalLines [ctx] lineIndex0 in
                 if contextIdx = - 1
                 then Inl (Error (''Failed to find context '' @ [CHR 0x27] @ ctx @ [CHR 0x27] @
                                  '' in '' @ filePath))
                 else Inr (contextIdx, contextIdx)))
       of
         Inl e \<Rightarrow> Inl e
       | Inr (contextIdx, lineIndex) \<Rightarrow>
           if length (old_lines chunk) = 0 then
             (if truthy (change_context chunk) \<and> contextIdx \<noteq> - 1
              then Inr (replacements @ [(contextIdx, 1, new_lines chunk)], lineIndex)
              else Inr (replacements @ [(int (length originalLines), 0, new_lines chunk)],
                        lineIndex))
           else
             (let pattern = old_lines chunk;
                  newSlice = new_lines chunk;
                  found = seekSequence originalLines pattern lineIndex;
                  (pattern, newSlice, found) =
                    (if found = - 1 \<and> 0 < length pattern \<and> last pattern = []
                     then
                       (let pattern' = butlast pattern;
                            newSlice' = (if 0 < length newSlice \<and> last newSlice = []
                                         then butlast newSlice else newSlice)
                        in (pattern', newSlice', seekSequence originalLines pattern' lineIndex))
                     else (pattern, newSlice, found))
              in if found \<noteq> - 1
                 then Inr (replacements @ [(found, int (length pattern), newSlice)],
                           found + int (length pattern))
                 else Inl (Error (''Failed to find expected lines in '' @ filePath @ '':'' @
                                  [nl] @ join [nl] (old_lines chunk))))))"

text \<open>\<^verbatim>\<open>for (const chunk of chunks)\<close>: the first error ends the loop.\<close>

fun computeReplacements_loop ::
    "string list \<Rightarrow> string \<Rightarrow> UpdateChunk list \<Rightarrow> Replacement list \<times> int \<Rightarrow>
     error + Replacement list \<times> int" where
  "computeReplacements_loop originalLines filePath [] st = Inr st"
| "computeReplacements_loop originalLines filePath (chunk # chunks) st =
     (case chunk_step originalLines filePath st chunk of
        Inl e \<Rightarrow> Inl e
      | Inr st' \<Rightarrow> computeReplacements_loop originalLines filePath chunks st')"

text \<open>
  After the loop, \<^verbatim>\<open>replacements.sort((a, b) => a[0] - b[0])\<close>: a stable sort by start
  index.
\<close>

definition computeReplacements ::
    "string list \<Rightarrow> string \<Rightarrow> UpdateChunk list \<Rightarrow> error + Replacement list" where
  "computeReplacements originalLines filePath chunks =
     (case computeReplacements_loop originalLines filePath chunks ([], 0) of
        Inl e \<Rightarrow> Inl e
      | Inr (replacements, lineIndex) \<Rightarrow> Inr (sort_key fst replacements))"

text \<open>
  \<^verbatim>\<open>Array.prototype.splice\<close>: a negative start counts from the end, the start is clamped
  to the array, and the delete count is clamped to what is left after the start.
\<close>

definition splice_start :: "'a list \<Rightarrow> int \<Rightarrow> nat" where
  "splice_start xs start =
     (if start < 0 then nat (max (int (length xs) + start) 0)
      else nat (min start (int (length xs))))"

text \<open>\<^verbatim>\<open>xs.splice(start, deleteCount)\<close>\<close>

definition splice_delete :: "'a list \<Rightarrow> int \<Rightarrow> int \<Rightarrow> 'a list" where
  "splice_delete xs start deleteCount =
     (let s = splice_start xs start;
          d = nat (min (max deleteCount 0) (int (length xs) - int s))
      in take s xs @ drop (s + d) xs)"

text \<open>\<^verbatim>\<open>xs.splice(start, 0, x)\<close>\<close>

definition splice_insert :: "'a list \<Rightarrow> int \<Rightarrow> 'a \<Rightarrow> 'a list" where
  "splice_insert xs start x =
     (let s = splice_start xs start in take s xs @ [x] @ drop s xs)"

text \<open>
  The inner loop of \<^verbatim>\<open>applyReplacements\<close>:
  \<^verbatim>\<open>for (j = 0; j < newSegment.length; j++) result.splice(startIdx + j, 0, newSegment[j])\<close>;
  \<open>k\<close> is \<^verbatim>\<open>startIdx + j\<close>.
\<close>

fun insert_segment :: "string list \<Rightarrow> int \<Rightarrow> string list \<Rightarrow> string list" where
  "insert_segment result k [] = result"
| "insert_segment result k (x # newSegment) =
     insert_segment (splice_insert result k x) (k + 1) newSegment"

definition apply_replacement :: "Replacement \<Rightarrow> string list \<Rightarrow> string list" where
  "apply_replacement r result =
     (case r of (startIdx, oldLen, newSegment) \<Rightarrow>
        insert_segment (splice_delete result startIdx oldLen) startIdx newSegment)"

text \<open>The replacements are applied from the last to the first.\<close>

definition applyReplacements :: "string list \<Rightarrow> Replacement list \<Rightarrow> string list" where
  "applyReplacements lines replacements = fold apply_replacement (rev replacements) lines"

section \<open>File mutator\<close>

text \<open>
  The file system and the path library are Node's, not this program's: they are a
  parameter of the model.  A call returns the new file system, or fails and leaves it as
  it was.
\<close>

record 'fs FsOps =
  fs_mkdir :: "string \<Rightarrow> 'fs \<Rightarrow> error + 'fs"
  fs_writeFile :: "string \<Rightarrow> string \<Rightarrow> 'fs \<Rightarrow> error + 'fs"
  fs_unlink :: "string \<Rightarrow> 'fs \<Rightarrow> error + 'fs"
  fs_readFileSync :: "string \<Rightarrow> 'fs \<Rightarrow> error + string"
  path_dirname :: "string \<Rightarrow> string"

text \<open>
  The lines of the original content, without the last one when it is empty
  (\<^verbatim>\<open>originalLines.pop()\<close>).
\<close>

definition original_lines :: "string \<Rightarrow> string list" where
  "original_lines originalContent =
     (let originalLines = split_on nl originalContent in
      if 0 < length originalLines \<and> last originalLines = []
      then butlast originalLines else originalLines)"

text \<open>
  The end of \<^verbatim>\<open>deriveNewContents\<close>: an empty line is pushed when the list is empty or its
  last line is not empty, and the lines are joined by newlines.
\<close>

definition finish_contents :: "string list \<Rightarrow> string" where
  "finish_contents newLines =
     join [nl] (if length newLines = 0 \<or> last newLines \<noteq> [] then newLines @ [[]] else newLines)"

definition deriveNewContents ::
    "'fs FsOps \<Rightarrow> 'fs \<Rightarrow> string \<Rightarrow> UpdateChunk list \<Rightarrow> error + string" where
  "deriveNewContents ops fs filePath chunks =
     (case fs_readFileSync ops filePath fs of
        Inl e \<Rightarrow> Inl e
      | Inr originalContent \<Rightarrow>
          (let originalLines = original_lines originalContent in
           case computeReplacements originalLines filePath chunks of
             Inl e \<Rightarrow> Inl e
           | Inr replacements \<Rightarrow>
               Inr (finish_contents (applyReplacements originalLines replacements))))"

text \<open>
  \<^verbatim>\<open>const dir = path.dirname(p); if (dir !== "." && dir !== "/") await fs.mkdir(dir,
  { recursive: true })\<close>
\<close>

definition ensure_dir :: "'fs FsOps \<Rightarrow> string \<Rightarrow> 'fs \<Rightarrow> error + 'fs" where
  "ensure_dir ops p fs =
     (let dir = path_dirname ops p in
      if dir \<noteq> ''.'' \<and> dir \<noteq> ''/'' then fs_mkdir ops dir fs else Inr fs)"

text \<open>
  One turn of the loop of \<^verbatim>\<open>applyHunksToFiles\<close>.  The file system is returned in both
  cases: what was written before a failure stays written.
\<close>

fun apply_hunk ::
    "'fs FsOps \<Rightarrow> Hunk \<Rightarrow> 'fs \<Rightarrow> AffectedPaths \<Rightarrow> 'fs \<times> (error + AffectedPaths)" where
  "apply_hunk ops (Add p contents) fs aff =
     (case ensure_dir ops p fs of
        Inl e \<Rightarrow> (fs, Inl e)
      | Inr fs1 \<Rightarrow>
          (case fs_writeFile ops p contents fs1 of
             Inl e \<Rightarrow> (fs1, Inl e)
           | Inr fs2 \<Rightarrow> (fs2, Inr (aff\<lparr>added := added aff @ [p]\<rparr>))))"
| "apply_hunk ops (Delete p) fs aff =
     (case fs_unlink ops p fs of
        Inl e \<Rightarrow> (fs, Inl e)
      | Inr fs1 \<Rightarrow> (fs1, Inr (aff\<lparr>deleted := deleted aff @ [p]\<rparr>)))"
| "apply_hunk ops (Update p move_path chunks) fs aff =
     (case deriveNewContents ops fs p chunks of
        Inl e \<Rightarrow> (fs, Inl e)
      | Inr content \<Rightarrow>
          (case move_path of
             None \<Rightarrow>
               (case fs_writeFile ops p content fs of
                  Inl e \<Rightarrow> (fs, Inl e)
                | Inr fs1 \<Rightarrow> (fs1, Inr (aff\<lparr>modified := modified aff @ [p]\<rparr>)))
           | Some mp \<Rightarrow>
               if mp = [] then
                 (case fs_writeFile ops p content fs of
                    Inl e \<Rightarrow> (fs, Inl e)
                  | Inr fs1 \<Rightarrow> (fs1, Inr (aff\<lparr>modified := modified aff @ [p]\<rparr>)))
               else
                 (case ensure_dir ops mp fs of
                    Inl e \<Rightarrow> (fs, Inl e)
                  | Inr fs1 \<Rightarrow>
                      (case fs_writeFile ops mp content fs1 of
                         Inl e \<Rightarrow> (fs1, Inl e)
                       | Inr fs2 \<Rightarrow>
                           (case fs_unlink ops p fs2 of
                              Inl e \<Rightarrow> (fs2, Inl e)
                            | Inr fs3 \<Rightarrow>
                                (fs3, Inr (aff\<lparr>modified := modified aff @ [mp]\<rparr>)))))))"

text \<open>\<^verbatim>\<open>for (const hunk of hunks)\<close>: an error ends the loop and is the result.\<close>

fun apply_hunks ::
    "'fs FsOps \<Rightarrow> Hunk list \<Rightarrow> 'fs \<Rightarrow> AffectedPaths \<Rightarrow> 'fs \<times> (error + AffectedPaths)" where
  "apply_hunks ops [] fs aff = (fs, Inr aff)"
| "apply_hunks ops (hunk # hunks) fs aff =
     (case apply_hunk ops hunk fs aff of
        (fs', Inl e) \<Rightarrow> (fs', Inl e)
      | (fs', Inr aff') \<Rightarrow> apply_hunks ops hunks fs' aff')"

definition applyHunksToFiles ::
    "'fs FsOps \<Rightarrow> Hunk list \<Rightarrow> 'fs \<Rightarrow> 'fs \<times> (error + AffectedPaths)" where
  "applyHunksToFiles ops hunks fs =
     (if length hunks = 0 then (fs, Inl (Error ''No files were modified.''))
      else apply_hunks ops hunks fs \<lparr>added = [], modified = [], deleted = []\<rparr>)"

text \<open>
  A file system to run the model on: a map from paths to contents, with no directories
  (\<^verbatim>\<open>mkdir\<close> changes nothing, \<^verbatim>\<open>writeFile\<close> always succeeds, \<^verbatim>\<open>unlink\<close> and
  \<^verbatim>\<open>readFileSync\<close> fail on a path that is not there).
\<close>

type_synonym mem_fs = "string \<rightharpoonup> string"

definition mem_dirname :: "string \<Rightarrow> string" where
  "mem_dirname p =
     (let ps = split_on (CHR ''/'') p in
      if length ps \<le> 1 then ''.''
      else (let d = join ''/'' (butlast ps) in if d = [] then ''/'' else d))"

definition mem_ops :: "mem_fs FsOps" where
  "mem_ops =
     \<lparr>fs_mkdir = (\<lambda>dir fs. Inr fs),
      fs_writeFile = (\<lambda>p content fs. Inr (fs(p \<mapsto> content))),
      fs_unlink = (\<lambda>p fs. case fs p of None \<Rightarrow> Inl (FsError p) | Some c \<Rightarrow> Inr (fs(p := None))),
      fs_readFileSync = (\<lambda>p fs. case fs p of None \<Rightarrow> Inl (FsError p) | Some c \<Rightarrow> Inr c),
      path_dirname = mem_dirname\<rparr>"

section \<open>Notions of the specification\<close>

text \<open>
  A marker line is present when some line equals it after trimming; its first
  occurrence is the number of lines before it.
\<close>

definition has_marker :: "string \<Rightarrow> string list \<Rightarrow> bool" where
  "has_marker m lines = (\<exists>l\<in>set lines. trim l = m)"

definition first_marker :: "string \<Rightarrow> string list \<Rightarrow> nat" where
  "first_marker m lines = length (takeWhile (\<lambda>l. trim l \<noteq> m) lines)"

text \<open>
  The condition under which the specification lets \<open>parsePatch\<close> fail: the two markers are
  not both present, or the first Begin marker is at or after the first End marker.
\<close>

definition markers_invalid :: "string \<Rightarrow> bool" where
  "markers_invalid patchText =
     (let lines = split_on nl patchText in
      \<not> (has_marker ''*** Begin Patch'' lines \<and> has_marker ''*** End Patch'' lines) \<or>
      first_marker ''*** End Patch'' lines \<le> first_marker ''*** Begin Patch'' lines)"

text \<open>
  Two replacements do not overlap when the one that starts first ends at or before the
  start of the other: \<open>span_before r1 r2\<close> says that \<open>r1\<close> ends at or before the start of
  \<open>r2\<close>.
\<close>

definition span_before :: "Replacement \<Rightarrow> Replacement \<Rightarrow> bool" where
  "span_before r1 r2 = (fst r1 + fst (snd r1) \<le> fst r2)"

text \<open>
  A replacement that puts back the lines it takes out: its span lies within the lines and
  its new segment is the lines of the span.
\<close>

definition replaces_by_itself :: "string list \<Rightarrow> Replacement \<Rightarrow> bool" where
  "replaces_by_itself lines r =
     (case r of (s, l, new) \<Rightarrow>
        0 \<le> s \<and> 0 \<le> l \<and> s + l \<le> int (length lines) \<and>
        take (nat l) (drop (nat s) lines) = new)"

text \<open>
  A chunk that asks for no change: \<open>new_lines\<close> equals \<open>old_lines\<close>; when both are empty,
  it has no context either (\<^verbatim>\<open>undefined\<close> or the empty string).
\<close>

definition unchanged_chunk :: "UpdateChunk \<Rightarrow> bool" where
  "unchanged_chunk chunk =
     (new_lines chunk = old_lines chunk \<and>
      (old_lines chunk \<noteq> [] \<or> change_context chunk = None \<or> change_context chunk = Some []))"

text \<open>
  The cursor after the first step of the loop body (the context, when there is one, is
  found).
\<close>

definition context_cursor :: "string list \<Rightarrow> UpdateChunk \<Rightarrow> int \<Rightarrow> int" where
  "context_cursor lines chunk cursor =
     (case change_context chunk of
        None \<Rightarrow> cursor
      | Some ctx \<Rightarrow> if ctx = [] then cursor else seekSequence lines [ctx] cursor)"

text \<open>An append at the end of the file: the span \<open>(length lines, 0)\<close>.\<close>

definition is_append :: "string list \<Rightarrow> Replacement \<Rightarrow> bool" where
  "is_append lines r = (fst r = int (length lines) \<and> fst (snd r) = 0)"

text \<open>A chunk that inserts at its context: no \<open>old_lines\<close>, and a context.\<close>

definition context_insertion :: "UpdateChunk \<Rightarrow> bool" where
  "context_insertion chunk = (old_lines chunk = [] \<and> truthy (change_context chunk))"

text \<open>
  What the forward search keeps true of the state of the loop, when no chunk inserts at
  its context: the cursor is within the lines, every span that is not an append has a
  positive length and ends at or before the cursor, and each of these spans ends at or
  before the start of the ones emitted after it.
\<close>

definition spans_inv :: "string list \<Rightarrow> Replacement list \<times> int \<Rightarrow> bool" where
  "spans_inv lines st =
     (case st of (reps, cursor) \<Rightarrow>
        cursor \<le> int (length lines) \<and>
        (\<forall>r\<in>set reps. is_append lines r \<or>
           (1 \<le> fst (snd r) \<and> fst r + fst (snd r) \<le> cursor)) \<and>
        sorted_wrt span_before (filter (\<lambda>r. \<not> is_append lines r) reps))"

text \<open>A text ends with exactly one newline: with a newline, and not with two.\<close>

definition exactly_one_trailing_newline :: "string \<Rightarrow> bool" where
  "exactly_one_trailing_newline s = (endsWith_nl s \<and> \<not> endsWith_nl (butlast s))"

section \<open>Properties of the sequence matcher\<close>

lemma seq_matches_iff:
  "seq_matches lines ps k \<longleftrightarrow> ps = [] \<or> occurs_at lines ps k"
proof (induction ps arbitrary: k)
  case Nil
  show ?case by simp
next
  case (Cons p ps)
  show ?case
  proof (cases "0 \<le> k \<and> k < int (length lines)")
    case False
    then show ?thesis by (auto simp: line_at_def occurs_at_def)
  next
    case True
    then have n: "nat k < length lines" by auto
    have d: "drop (nat k) lines = lines ! nat k # drop (Suc (nat k)) lines"
      using n by (simp add: Cons_nth_drop_Suc)
    have s: "nat (k + 1) = Suc (nat k)" using True by auto
    show ?thesis
      using True n Cons.IH [of "k + 1"]
      by (auto simp: line_at_def occurs_at_def d s)
  qed
qed

lemma seek_from_result:
  assumes "pattern \<noteq> []"
  shows "(seek_from lines pattern i = - 1 \<and> (\<forall>j\<ge>i. \<not> occurs_at lines pattern j)) \<or>
         (i \<le> seek_from lines pattern i \<and> 0 \<le> seek_from lines pattern i \<and>
          occurs_at lines pattern (seek_from lines pattern i) \<and>
          (\<forall>j. i \<le> j \<and> j < seek_from lines pattern i \<longrightarrow> \<not> occurs_at lines pattern j))"
  using assms
proof (induction lines pattern i rule: seek_from.induct)
  case (1 lines pattern i)
  show ?case
  proof (cases "i \<le> int (length lines) - int (length pattern)")
    case False
    then have "\<forall>j\<ge>i. \<not> occurs_at lines pattern j"
      by (auto simp: occurs_at_def)
    moreover have "seek_from lines pattern i = - 1"
      using False by (subst seek_from.simps) simp
    ultimately show ?thesis by blast
  next
    case True
    show ?thesis
    proof (cases "seq_matches lines pattern i")
      case m: True
      then have o: "occurs_at lines pattern i"
        using 1(2) by (simp add: seq_matches_iff)
      have "seek_from lines pattern i = i"
        using True m by (subst seek_from.simps) simp
      then show ?thesis using o by (auto simp: occurs_at_def)
    next
      case m: False
      then have no: "\<not> occurs_at lines pattern i"
        using 1(2) by (simp add: seq_matches_iff)
      have e: "seek_from lines pattern i = seek_from lines pattern (i + 1)"
        using True m by (subst seek_from.simps) simp
      have ih: "(seek_from lines pattern (i + 1) = - 1 \<and>
                 (\<forall>j\<ge>i + 1. \<not> occurs_at lines pattern j)) \<or>
         (i + 1 \<le> seek_from lines pattern (i + 1) \<and> 0 \<le> seek_from lines pattern (i + 1) \<and>
          occurs_at lines pattern (seek_from lines pattern (i + 1)) \<and>
          (\<forall>j. i + 1 \<le> j \<and> j < seek_from lines pattern (i + 1) \<longrightarrow>
             \<not> occurs_at lines pattern j))"
        using 1(1) [OF True m 1(2)] .
      have step: "\<And>j. i \<le> j \<Longrightarrow> j = i \<or> i + 1 \<le> j" by auto
      from ih show ?thesis
      proof
        assume a: "seek_from lines pattern (i + 1) = - 1 \<and>
                 (\<forall>j\<ge>i + 1. \<not> occurs_at lines pattern j)"
        then have "\<forall>j\<ge>i. \<not> occurs_at lines pattern j"
          using no step by blast
        then show ?thesis using a e by simp
      next
        assume a: "i + 1 \<le> seek_from lines pattern (i + 1) \<and> 0 \<le> seek_from lines pattern (i + 1) \<and>
          occurs_at lines pattern (seek_from lines pattern (i + 1)) \<and>
          (\<forall>j. i + 1 \<le> j \<and> j < seek_from lines pattern (i + 1) \<longrightarrow>
             \<not> occurs_at lines pattern j)"
        then have "\<forall>j. i \<le> j \<and> j < seek_from lines pattern (i + 1) \<longrightarrow>
             \<not> occurs_at lines pattern j"
          using no step by blast
        then show ?thesis using a e by simp
      qed
    qed
  qed
qed

text \<open>
  Claim C3.  For every list of lines, pattern and start index, \<open>seekSequence\<close> returns the
  lowest index \<open>i \<ge> start\<close> at which the whole pattern occurs as a contiguous, element-wise
  equal run of the lines, and \<open>-1\<close> (not found) whenever the pattern is empty or no such
  index exists within bounds.  In particular it is \<open>-1\<close> on an empty haystack and on an
  empty pattern from index 0, and \<^verbatim>\<open>seek(["a","b","a","b"], ["a","b"], 1)\<close> is 2.
\<close>

theorem seekSequence_lowest_match:
  "(pattern = [] \<longrightarrow> seekSequence lines pattern start = - 1) \<and>
   (pattern \<noteq> [] \<and> (\<exists>i\<ge>start. occurs_at lines pattern i) \<longrightarrow>
      start \<le> seekSequence lines pattern start \<and>
      occurs_at lines pattern (seekSequence lines pattern start) \<and>
      (\<forall>j. start \<le> j \<and> j < seekSequence lines pattern start \<longrightarrow>
         \<not> occurs_at lines pattern j)) \<and>
   (\<not> (\<exists>i\<ge>start. occurs_at lines pattern i) \<longrightarrow> seekSequence lines pattern start = - 1) \<and>
   seekSequence [] pattern 0 = - 1 \<and>
   seekSequence lines [] 0 = - 1 \<and>
   seekSequence [''a'', ''b'', ''a'', ''b''] [''a'', ''b''] 1 = 2"
proof -
  have empty: "\<And>ls s. seekSequence ls [] s = - 1"
    by (simp add: seekSequence_def)
  have found: "start \<le> seekSequence lines pattern start \<and>
      occurs_at lines pattern (seekSequence lines pattern start) \<and>
      (\<forall>j. start \<le> j \<and> j < seekSequence lines pattern start \<longrightarrow>
         \<not> occurs_at lines pattern j)"
    if "pattern \<noteq> []" "\<exists>i\<ge>start. occurs_at lines pattern i"
    using seek_from_result [OF that(1), of lines start] that
    by (auto simp: seekSequence_def)
  have none: "seekSequence lines pattern start = - 1"
    if "\<not> (\<exists>i\<ge>start. occurs_at lines pattern i)"
  proof (cases "pattern = []")
    case True
    then show ?thesis by (simp add: empty)
  next
    case False
    have "\<not> occurs_at lines pattern (seek_from lines pattern start) \<or>
          \<not> start \<le> seek_from lines pattern start"
      using that by blast
    then show ?thesis
      using seek_from_result [OF False, of lines start] False
      by (auto simp: seekSequence_def)
  qed
  have nohay: "seekSequence [] pattern 0 = - 1"
    by (simp add: seekSequence_def seek_from.simps [of "[]" pattern 0])
  have ex: "seekSequence [''a'', ''b'', ''a'', ''b''] [''a'', ''b''] 1 = 2"
    by (simp add: seekSequence_def seek_from.simps line_at_def)
  show ?thesis
    using empty found none nohay ex by blast
qed

theorem seekSequence_lowest_match_witness:
  "[''b''] \<noteq> [] \<and> (\<exists>i\<ge>1. occurs_at [''a'', ''b'', ''c'', ''b''] [''b''] i) \<and>
   seekSequence [''a'', ''b'', ''c'', ''b''] [''b''] 1 = 1 \<and>
   seekSequence [''a'', ''b'', ''c'', ''b''] [''b''] 2 = 3 \<and>
   \<not> (\<exists>i\<ge>4. occurs_at [''a'', ''b'', ''c'', ''b''] [''b''] i) \<and>
   seekSequence [''a'', ''b'', ''c'', ''b''] [''b''] 4 = - 1 \<and>
   [] = ([] :: string list) \<and> seekSequence [''a''] [] 0 = - 1"
proof -
  have o1: "occurs_at [''a'', ''b'', ''c'', ''b''] [''b''] 1"
    by (simp add: occurs_at_def)
  have o3: "occurs_at [''a'', ''b'', ''c'', ''b''] [''b''] 3"
    by (simp add: occurs_at_def)
  have n2: "\<not> occurs_at [''a'', ''b'', ''c'', ''b''] [''b''] 2"
    by (simp add: occurs_at_def)
  have n4: "\<not> (\<exists>i\<ge>4. occurs_at [''a'', ''b'', ''c'', ''b''] [''b''] i)"
    by (auto simp: occurs_at_def)
  have e1: "\<exists>i\<ge>1. occurs_at [''a'', ''b'', ''c'', ''b''] [''b''] i"
    using o1 by (intro exI [of _ 1]) simp
  have e2: "\<exists>i\<ge>2. occurs_at [''a'', ''b'', ''c'', ''b''] [''b''] i"
    using o3 by (intro exI [of _ 3]) simp
  note t1 = seekSequence_lowest_match [of "[''b'']" "[''a'', ''b'', ''c'', ''b'']" 1]
  note t2 = seekSequence_lowest_match [of "[''b'']" "[''a'', ''b'', ''c'', ''b'']" 2]
  note t4 = seekSequence_lowest_match [of "[''b'']" "[''a'', ''b'', ''c'', ''b'']" 4]
  note t0 = seekSequence_lowest_match [of "[]" "[''a'']" 0]
  have r1: "seekSequence [''a'', ''b'', ''c'', ''b''] [''b''] 1 = 1"
    by (simp add: seekSequence_def seek_from.simps line_at_def)
  have r2: "seekSequence [''a'', ''b'', ''c'', ''b''] [''b''] 2 = 3"
    by (simp add: seekSequence_def seek_from.simps line_at_def)
  have r4: "seekSequence [''a'', ''b'', ''c'', ''b''] [''b''] 4 = - 1"
    using t4 n4 by blast
  have r0: "seekSequence [''a''] [] 0 = - 1"
    using t0 by blast
  have c1: "1 \<le> seekSequence [''a'', ''b'', ''c'', ''b''] [''b''] 1 \<and>
            occurs_at [''a'', ''b'', ''c'', ''b''] [''b'']
              (seekSequence [''a'', ''b'', ''c'', ''b''] [''b''] 1)"
    using t1 e1 by blast
  show ?thesis
    using e1 r1 r2 n4 r4 r0 c1 by simp
qed

section \<open>Properties of the parser\<close>

lemma chunk_body_isEndOfFile:
  "chunk_body lines i oldLines newLines = (ol, nw, eof, i') \<Longrightarrow> \<not> eof"
proof (induction lines i oldLines newLines rule: chunk_body.induct)
  case (1 lines i oldLines newLines)
  note e = "1.prems" [unfolded chunk_body.simps [of lines i oldLines newLines]]
  have star: "startsWith ''*** End of File'' ''***''"
    by (simp add: startsWith_def)
  show ?case
    using e "1.IH" star by (fastforce simp: Let_def split: if_splits)
qed

text \<open>
  No chunk that \<open>parseUpdateChunks\<close> returns has \<open>is_end_of_file\<close> set: the loop guard
  leaves the chunk body at every line that starts with \<^verbatim>\<open>***\<close>, so the comparison with
  \<^verbatim>\<open>*** End of File\<close> inside the body is never reached with an equal line.
\<close>

lemma parseUpdateChunks_loop_isEndOfFile:
  "parseUpdateChunks_loop lines i chunks = (cs, i') \<Longrightarrow>
   list_all (\<lambda>c. is_end_of_file c = None) chunks \<Longrightarrow>
   list_all (\<lambda>c. is_end_of_file c = None) cs"
proof (induction lines i chunks rule: parseUpdateChunks_loop.induct)
  case (1 lines i chunks)
  note e = "1.prems"(1) [unfolded parseUpdateChunks_loop.simps [of lines i chunks]]
  show ?case
    using e "1.IH" "1.prems"(2)
    by (fastforce simp: Let_def split: if_splits prod.splits dest: chunk_body_isEndOfFile)
qed

text \<open>
  Claim C6.  The claim: when the line \<^verbatim>\<open>*** End of File\<close> appears inside a chunk body,
  the chunk stops there and has \<open>is_end_of_file\<close> set.  The code at such an input: the chunk
  stops at the line, \<open>is_end_of_file\<close> is left unset, the line is not consumed (the index
  returned is 3, the marker's own), and the chunk after the marker is not parsed.
\<close>

theorem parseUpdateChunks_end_of_file_marker:
  "parseUpdateChunks [''@@ ctx'', ''-a'', ''+b'', ''*** End of File'', ''@@'', ''+c''] 0 =
     ([\<lparr>old_lines = [''a''], new_lines = [''b''], change_context = Some ''ctx'',
        is_end_of_file = None\<rparr>], 3)"
  by (simp add: parseUpdateChunks_def parseUpdateChunks_loop.simps chunk_body.simps
      startsWith_def trim_def is_space_def)

lemma findIndex_from_eq:
  "findIndex_from P xs i =
     (if \<exists>x\<in>set xs. P x then int (i + length (takeWhile (\<lambda>x. \<not> P x) xs)) else - 1)"
  by (induction xs arbitrary: i) auto

lemma findIndex_marker:
  "findIndex (\<lambda>line. trim line = m) lines =
     (if has_marker m lines then int (first_marker m lines) else - 1)"
  by (simp add: findIndex_def findIndex_from_eq has_marker_def first_marker_def)

lemma first_marker_less:
  "has_marker m lines \<Longrightarrow> first_marker m lines < length lines"
  unfolding has_marker_def first_marker_def
  by (induction lines) auto

lemma parsePatchHeader_in_range:
  "idx < length lines \<Longrightarrow> parsePatchHeader lines idx \<noteq> Inl e"
  by (auto simp: parsePatchHeader_def Let_def split: option.splits)

text \<open>The main loop never reads a line outside the array, and it ends.\<close>

lemma parsePatch_loop_total:
  "endIdx \<le> length lines \<Longrightarrow> \<exists>hs. parsePatch_loop lines endIdx i hunks = Inr hs"
proof (induction lines endIdx i hunks rule: parsePatch_loop.induct)
  case (1 lines endIdx i hunks)
  show ?case
  proof (cases "i < endIdx")
    case False
    then show ?thesis by (simp add: parsePatch_loop.simps [of lines endIdx i hunks])
  next
    case True
    then have r: "i < length lines" using "1.prems" by simp
    have h: "\<And>e. parsePatchHeader lines i \<noteq> Inl e"
      using parsePatchHeader_in_range [OF r] .
    show ?thesis
      using True h "1.prems" "1.IH"
      by (subst parsePatch_loop.simps)
         (fastforce split: sum.splits option.splits prod.splits)
  qed
qed

text \<open>
  Claim C8.  \<open>parsePatch\<close> throws exactly when the marker lines \<^verbatim>\<open>*** Begin Patch\<close> and
  \<^verbatim>\<open>*** End Patch\<close> are not both present (as lines equal to the marker after trimming),
  or the first Begin marker is at or after the first End marker by line index; on every
  other input it returns a list of hunks.  The error it throws is the one about the
  markers.
\<close>

theorem parsePatch_error_iff:
  "((\<exists>e. parsePatch patchText = Inl e) \<longleftrightarrow> markers_invalid patchText) \<and>
   ((\<exists>hunks. parsePatch patchText = Inr hunks) \<longleftrightarrow> \<not> markers_invalid patchText) \<and>
   (\<forall>e. parsePatch patchText = Inl e \<longrightarrow>
      e = Error ''Invalid patch format: missing Begin/End markers'')"
proof (cases "markers_invalid patchText")
  case True
  then have "parsePatch patchText = Inl (Error ''Invalid patch format: missing Begin/End markers'')"
    by (auto simp: parsePatch_def markers_invalid_def Let_def findIndex_marker)
  then show ?thesis using True by simp
next
  case False
  let ?lines = "split_on nl patchText"
  from False have b: "has_marker ''*** Begin Patch'' ?lines"
    and e: "has_marker ''*** End Patch'' ?lines"
    and o: "first_marker ''*** Begin Patch'' ?lines < first_marker ''*** End Patch'' ?lines"
    by (auto simp: markers_invalid_def Let_def)
  have le: "first_marker ''*** End Patch'' ?lines \<le> length ?lines"
    using first_marker_less [OF e] by simp
  have eq: "parsePatch patchText =
      parsePatch_loop ?lines (first_marker ''*** End Patch'' ?lines)
        (nat (int (first_marker ''*** Begin Patch'' ?lines) + 1)) []"
    using b e o by (simp add: parsePatch_def Let_def findIndex_marker)
  obtain hs where "parsePatch patchText = Inr hs"
    using parsePatch_loop_total [OF le] eq by metis
  then show ?thesis using False by simp
qed

theorem parsePatch_error_iff_witness:
  "markers_invalid (''*** End Patch'' @ [nl] @ ''*** Begin Patch'') \<and>
   parsePatch (''*** End Patch'' @ [nl] @ ''*** Begin Patch'') =
     Inl (Error ''Invalid patch format: missing Begin/End markers'') \<and>
   \<not> markers_invalid (''*** Begin Patch'' @ [nl] @ ''*** Delete File: a'' @ [nl] @ ''*** End Patch'') \<and>
   (\<exists>hunks. parsePatch (''*** Begin Patch'' @ [nl] @ ''*** Delete File: a'' @ [nl] @
                        ''*** End Patch'') = Inr hunks)"
proof -
  let ?bad = "''*** End Patch'' @ [nl] @ ''*** Begin Patch''"
  let ?good = "''*** Begin Patch'' @ [nl] @ ''*** Delete File: a'' @ [nl] @ ''*** End Patch''"
  have i: "markers_invalid ?bad"
    by (simp add: markers_invalid_def has_marker_def first_marker_def nl_def trim_def
        is_space_def)
  have v: "\<not> markers_invalid ?good"
    by (simp add: markers_invalid_def has_marker_def first_marker_def nl_def trim_def
        is_space_def)
  obtain e where e: "parsePatch ?bad = Inl e"
    using parsePatch_error_iff [of ?bad] i by blast
  then have "parsePatch ?bad = Inl (Error ''Invalid patch format: missing Begin/End markers'')"
    using parsePatch_error_iff [of ?bad] by blast
  moreover have "\<exists>hunks. parsePatch ?good = Inr hunks"
    using parsePatch_error_iff [of ?good] v by blast
  ultimately show ?thesis using i v by blast
qed

lemma parseAddContent_loop_eq:
  "parseAddContent_loop lines i content =
     (content @ concat (map (\<lambda>l. drop 1 l @ [nl])
                 (filter (\<lambda>l. startsWith l ''+'')
                    (takeWhile (\<lambda>l. \<not> startsWith l ''***'') (drop i lines)))),
      i + length (takeWhile (\<lambda>l. \<not> startsWith l ''***'') (drop i lines)))"
proof (induction lines i content rule: parseAddContent_loop.induct)
  case (1 lines i content)
  show ?case
  proof (cases "i < length lines")
    case False
    then show ?thesis by (simp add: parseAddContent_loop.simps [of lines i content])
  next
    case True
    then have d: "drop i lines = lines ! i # drop (Suc i) lines"
      by (simp add: Cons_nth_drop_Suc)
    show ?thesis
      using True "1.IH"
      by (simp add: parseAddContent_loop.simps [of lines i content] d)
  qed
qed

lemma join_nl_concat:
  "xs \<noteq> [] \<Longrightarrow> concat (map (\<lambda>l. l @ [nl]) xs) = join [nl] xs @ [nl]"
  by (induction xs rule: join.induct [where ?a0.0 = "[nl]"]) auto

text \<open>
  The contents that \<open>parseAddContent\<close> stores: the remainders of the lines that start with
  \<^verbatim>\<open>+\<close>, up to the next line that starts with \<^verbatim>\<open>***\<close>, joined by newlines.
\<close>

lemma parseAddContent_eq:
  "fst (parseAddContent lines i) =
     join [nl] (map (drop 1) (filter (\<lambda>l. startsWith l ''+'')
                    (takeWhile (\<lambda>l. \<not> startsWith l ''***'') (drop i lines))))"
proof -
  let ?xs = "map (drop 1) (filter (\<lambda>l. startsWith l ''+'')
                    (takeWhile (\<lambda>l. \<not> startsWith l ''***'') (drop i lines)))"
  have c: "fst (parseAddContent_loop lines i []) = concat (map (\<lambda>l. l @ [nl]) ?xs)"
    by (simp add: parseAddContent_loop_eq map_concat comp_def)
  show ?thesis
  proof (cases "?xs = []")
    case True
    then show ?thesis
      using c by (auto simp: parseAddContent_def endsWith_nl_def split: prod.splits)
  next
    case False
    then show ?thesis
      using c join_nl_concat [OF False]
      by (auto simp: parseAddContent_def endsWith_nl_def split: prod.splits)
  qed
qed

section \<open>Properties of the file mutator\<close>

text \<open>The hunks are applied in order: a list is applied as its two halves in turn.\<close>

lemma apply_hunks_append:
  "apply_hunks ops (pre @ post) fs aff =
     (case apply_hunks ops pre fs aff of
        (fs', Inl e) \<Rightarrow> (fs', Inl e)
      | (fs', Inr aff') \<Rightarrow> apply_hunks ops post fs' aff')"
  by (induction pre arbitrary: fs aff) (auto split: prod.splits sum.splits)

text \<open>
  Claim C9.  \<open>applyHunksToFiles\<close> applies the hunks in order.  When the hunks before
  \<open>hunk\<close> succeed, leaving the file system \<open>fs1\<close>, and \<open>hunk\<close> fails with \<open>e\<close>, the call fails
  with \<open>e\<close> whatever hunks follow (none of them is applied), and the file system it leaves
  is the one \<open>hunk\<close> left when it failed: the effects of the earlier hunks are not rolled
  back.  For a failing Delete that file system is \<open>fs1\<close> itself.
\<close>

theorem applyHunksToFiles_stops_at_failure:
  assumes pre: "apply_hunks ops pre fs \<lparr>added = [], modified = [], deleted = []\<rparr> = (fs1, Inr aff1)"
      and fail: "apply_hunk ops hunk fs1 aff1 = (fs2, Inl e)"
  shows "applyHunksToFiles ops (pre @ hunk # post) fs = (fs2, Inl e) \<and>
         applyHunksToFiles ops (pre @ [hunk]) fs = (fs2, Inl e) \<and>
         (\<forall>p. hunk = Delete p \<longrightarrow> fs2 = fs1 \<and> fs_unlink ops p fs1 = Inl e)"
proof -
  have a: "\<And>post. applyHunksToFiles ops (pre @ hunk # post) fs = (fs2, Inl e)"
    using pre fail by (simp add: applyHunksToFiles_def apply_hunks_append)
  have d: "\<forall>p. hunk = Delete p \<longrightarrow> fs2 = fs1 \<and> fs_unlink ops p fs1 = Inl e"
    using fail by (auto split: sum.splits)
  show ?thesis using a [of post] a [of "[]"] d by simp
qed

theorem applyHunksToFiles_stops_at_failure_witness:
  "apply_hunks mem_ops [Add ''a.txt'' ''hello''] Map.empty
      \<lparr>added = [], modified = [], deleted = []\<rparr> =
     (Map.empty(''a.txt'' \<mapsto> ''hello''), Inr \<lparr>added = [''a.txt''], modified = [], deleted = []\<rparr>) \<and>
   apply_hunk mem_ops (Delete ''missing'') (Map.empty(''a.txt'' \<mapsto> ''hello''))
      \<lparr>added = [''a.txt''], modified = [], deleted = []\<rparr> =
     (Map.empty(''a.txt'' \<mapsto> ''hello''), Inl (FsError ''missing'')) \<and>
   applyHunksToFiles mem_ops
      [Add ''a.txt'' ''hello'', Delete ''missing'', Add ''c.txt'' ''later''] Map.empty =
     (Map.empty(''a.txt'' \<mapsto> ''hello''), Inl (FsError ''missing'')) \<and>
   fs_unlink mem_ops ''missing'' (Map.empty(''a.txt'' \<mapsto> ''hello'')) = Inl (FsError ''missing'')"
proof -
  have p: "apply_hunks mem_ops [Add ''a.txt'' ''hello''] Map.empty
      \<lparr>added = [], modified = [], deleted = []\<rparr> =
     (Map.empty(''a.txt'' \<mapsto> ''hello''), Inr \<lparr>added = [''a.txt''], modified = [], deleted = []\<rparr>)"
    by (simp add: mem_ops_def ensure_dir_def mem_dirname_def)
  have f: "apply_hunk mem_ops (Delete ''missing'') (Map.empty(''a.txt'' \<mapsto> ''hello''))
      \<lparr>added = [''a.txt''], modified = [], deleted = []\<rparr> =
     (Map.empty(''a.txt'' \<mapsto> ''hello''), Inl (FsError ''missing''))"
    by (simp add: mem_ops_def)
  note t = applyHunksToFiles_stops_at_failure [OF p f, of "[Add ''c.txt'' ''later'']"]
  have u: "fs_unlink mem_ops ''missing'' (Map.empty(''a.txt'' \<mapsto> ''hello'')) =
             Inl (FsError ''missing'')"
    using t by blast
  show ?thesis
    using t p f u by simp
qed

text \<open>
  Claim C7, as stated: the content written for an Add hunk is the stored contents with
  one newline appended.  It fails on the specification's own example: the parser stores
  \<^verbatim>\<open>hello\<close>, and the file written holds \<^verbatim>\<open>hello\<close>, with no newline.
\<close>

theorem add_hunk_not_newline_terminated:
  "parsePatch (''*** Begin Patch'' @ [nl] @ ''*** Add File: a.txt'' @ [nl] @ ''+hello'' @ [nl] @
               ''*** End Patch'') = Inr [Add ''a.txt'' ''hello''] \<and>
   fst (applyHunksToFiles mem_ops [Add ''a.txt'' ''hello''] Map.empty) ''a.txt'' = Some ''hello'' \<and>
   fst (applyHunksToFiles mem_ops [Add ''a.txt'' ''hello''] Map.empty) ''a.txt'' \<noteq>
     Some (''hello'' @ [nl])"
proof -
  have p: "parsePatch (''*** Begin Patch'' @ [nl] @ ''*** Add File: a.txt'' @ [nl] @ ''+hello'' @ [nl] @
               ''*** End Patch'') = Inr [Add ''a.txt'' ''hello'']"
    by (simp add: parsePatch_def nl_def findIndex_def trim_def is_space_def
        parsePatch_loop.simps parsePatchHeader_def startsWith_def header_path_def
        parseAddContent_def parseAddContent_loop.simps endsWith_nl_def)
  have w: "fst (applyHunksToFiles mem_ops [Add ''a.txt'' ''hello''] Map.empty) ''a.txt'' = Some ''hello''"
    by (simp add: applyHunksToFiles_def mem_ops_def ensure_dir_def mem_dirname_def)
  show ?thesis using p w by simp
qed

text \<open>
  Claim C7, amended.  For every Add hunk of a run that succeeds, \<open>applyHunksToFiles\<close>
  passes the hunk's stored contents to \<^verbatim>\<open>writeFile\<close> as they are, after the hunks before it
  and the creation of the directory: nothing is appended on write (in the file system of
  the model the file then holds exactly the contents).  The contents the parser stores are
  the remainders of the \<^verbatim>\<open>+\<close> lines joined by newlines, with no newline after the last.
\<close>

theorem add_hunk_written_verbatim:
  assumes run: "applyHunksToFiles ops (pre @ Add p contents # post) fs = (fs', Inr aff')"
  shows "(\<exists>fs0 aff0 fs1 fs2.
            apply_hunks ops pre fs \<lparr>added = [], modified = [], deleted = []\<rparr> = (fs0, Inr aff0) \<and>
            ensure_dir ops p fs0 = Inr fs1 \<and>
            fs_writeFile ops p contents fs1 = Inr fs2 \<and>
            apply_hunks ops post fs2 (aff0\<lparr>added := added aff0 @ [p]\<rparr>) = (fs', Inr aff')) \<and>
         fst (apply_hunk mem_ops (Add p contents) mfs aff) p = Some contents \<and>
         fst (parseAddContent lines i) =
           join [nl] (map (drop 1) (filter (\<lambda>l. startsWith l ''+'')
                        (takeWhile (\<lambda>l. \<not> startsWith l ''***'') (drop i lines))))"
proof -
  let ?init = "\<lparr>added = [], modified = [], deleted = []\<rparr>"
  from run have r: "apply_hunks ops (pre @ Add p contents # post) fs ?init = (fs', Inr aff')"
    by (simp add: applyHunksToFiles_def)
  obtain fs0 r0 where p0: "apply_hunks ops pre fs ?init = (fs0, r0)"
    by (cases "apply_hunks ops pre fs ?init") auto
  from r p0 obtain aff0 where a0: "r0 = Inr aff0"
    by (cases r0) (auto simp: apply_hunks_append)
  from r p0 a0 have s: "apply_hunks ops (Add p contents # post) fs0 aff0 = (fs', Inr aff')"
    by (simp add: apply_hunks_append)
  then obtain fs1 where e1: "ensure_dir ops p fs0 = Inr fs1"
    by (cases "ensure_dir ops p fs0") auto
  from s e1 obtain fs2 where w2: "fs_writeFile ops p contents fs1 = Inr fs2"
    by (cases "fs_writeFile ops p contents fs1") auto
  from s e1 w2 have t: "apply_hunks ops post fs2 (aff0\<lparr>added := added aff0 @ [p]\<rparr>) = (fs', Inr aff')"
    by simp
  have m: "fst (apply_hunk mem_ops (Add p contents) mfs aff) p = Some contents"
    by (simp add: mem_ops_def ensure_dir_def Let_def)
  show ?thesis
    using p0 a0 e1 w2 t m parseAddContent_eq [of lines i] by blast
qed

theorem add_hunk_written_verbatim_witness:
  "applyHunksToFiles mem_ops [Delete ''old.txt'', Add ''a.txt'' ''hello'', Add ''b.txt'' ''x'']
      (Map.empty(''old.txt'' \<mapsto> ''gone'')) =
     (Map.empty(''a.txt'' \<mapsto> ''hello'', ''b.txt'' \<mapsto> ''x'', ''old.txt'' := None),
      Inr \<lparr>added = [''a.txt'', ''b.txt''], modified = [], deleted = [''old.txt'']\<rparr>) \<and>
   (\<exists>fs0 aff0 fs1 fs2.
      apply_hunks mem_ops [Delete ''old.txt''] (Map.empty(''old.txt'' \<mapsto> ''gone''))
        \<lparr>added = [], modified = [], deleted = []\<rparr> = (fs0, Inr aff0) \<and>
      ensure_dir mem_ops ''a.txt'' fs0 = Inr fs1 \<and>
      fs_writeFile mem_ops ''a.txt'' ''hello'' fs1 = Inr fs2 \<and> fs2 ''a.txt'' = Some ''hello'')"
proof -
  have r: "applyHunksToFiles mem_ops ([Delete ''old.txt''] @ Add ''a.txt'' ''hello'' # [Add ''b.txt'' ''x''])
      (Map.empty(''old.txt'' \<mapsto> ''gone'')) =
     (Map.empty(''a.txt'' \<mapsto> ''hello'', ''b.txt'' \<mapsto> ''x'', ''old.txt'' := None),
      Inr \<lparr>added = [''a.txt'', ''b.txt''], modified = [], deleted = [''old.txt'']\<rparr>)"
    by (auto simp: applyHunksToFiles_def mem_ops_def ensure_dir_def mem_dirname_def)
  have w: "\<And>fs1 fs2. fs_writeFile mem_ops ''a.txt'' ''hello'' fs1 = Inr fs2 \<Longrightarrow>
             fs2 ''a.txt'' = Some ''hello''"
    by (auto simp: mem_ops_def)
  show ?thesis
    using add_hunk_written_verbatim [OF r] r w by fastforce
qed

section \<open>Properties of the patch applier\<close>

lemma seekSequence_found:
  assumes "seekSequence lines pattern start \<noteq> - 1"
  shows "pattern \<noteq> [] \<and> start \<le> seekSequence lines pattern start \<and>
         occurs_at lines pattern (seekSequence lines pattern start)"
proof -
  have p: "pattern \<noteq> []" using assms by (auto simp: seekSequence_def)
  show ?thesis
    using seek_from_result [OF p, of lines start] assms p
    by (auto simp: seekSequence_def)
qed

lemma splice_start_in_range:
  "0 \<le> s \<Longrightarrow> s \<le> int (length xs) \<Longrightarrow> splice_start xs s = nat s"
  by (simp add: splice_start_def)

lemma splice_delete_in_range:
  "0 \<le> s \<Longrightarrow> 0 \<le> l \<Longrightarrow> s + l \<le> int (length xs) \<Longrightarrow>
   splice_delete xs s l = take (nat s) xs @ drop (nat s + nat l) xs"
  by (simp add: splice_delete_def splice_start_in_range Let_def min_def)

lemma splice_insert_in_range:
  "0 \<le> s \<Longrightarrow> s \<le> int (length xs) \<Longrightarrow>
   splice_insert xs s x = take (nat s) xs @ [x] @ drop (nat s) xs"
  by (simp add: splice_insert_def splice_start_in_range Let_def)

lemma insert_segment_in_range:
  "0 \<le> k \<Longrightarrow> k \<le> int (length xs) \<Longrightarrow>
   insert_segment xs k seg = take (nat k) xs @ seg @ drop (nat k) xs"
proof (induction seg arbitrary: xs k)
  case Nil
  then show ?case by simp
next
  case (Cons x seg)
  let ?ys = "take (nat k) xs @ [x] @ drop (nat k) xs"
  have l: "k + 1 \<le> int (length ?ys)" using Cons.prems by auto
  have n: "nat (k + 1) = Suc (nat k)" using Cons.prems by auto
  have m: "min (length xs) (nat k) = nat k" using Cons.prems by auto
  have "insert_segment xs k (x # seg) = insert_segment ?ys (k + 1) seg"
    using Cons.prems by (simp add: splice_insert_in_range)
  also have "\<dots> = take (nat (k + 1)) ?ys @ seg @ drop (nat (k + 1)) ?ys"
    using Cons.IH [of "k + 1" ?ys] Cons.prems l by simp
  also have "\<dots> = take (nat k) xs @ (x # seg) @ drop (nat k) xs"
    by (simp add: n m)
  finally show ?case .
qed

lemma apply_replacement_in_range:
  assumes "0 \<le> s" "0 \<le> l" "s + l \<le> int (length xs)"
  shows "apply_replacement (s, l, new) xs = take (nat s) xs @ new @ drop (nat s + nat l) xs"
proof -
  let ?d = "take (nat s) xs @ drop (nat s + nat l) xs"
  have d: "splice_delete xs s l = ?d"
    using assms by (rule splice_delete_in_range)
  have k: "s \<le> int (length ?d)" using assms by auto
  have m: "min (length xs) (nat s) = nat s" using assms by auto
  have "apply_replacement (s, l, new) xs = insert_segment ?d s new"
    by (simp add: apply_replacement_def d)
  also have "\<dots> = take (nat s) ?d @ new @ drop (nat s) ?d"
    using insert_segment_in_range [OF assms(1) k] .
  also have "\<dots> = take (nat s) xs @ new @ drop (nat s + nat l) xs"
    by (simp add: m)
  finally show ?thesis .
qed

lemma computeReplacements_loop_append:
  "computeReplacements_loop lines fp (pre @ post) st =
     (case computeReplacements_loop lines fp pre st of
        Inl e \<Rightarrow> Inl e
      | Inr st' \<Rightarrow> computeReplacements_loop lines fp post st')"
  by (induction pre arbitrary: st) (auto split: sum.splits)

text \<open>What the loop body does for a chunk whose \<open>old_lines\<close> is empty.\<close>

lemma chunk_step_insertion:
  assumes "old_lines chunk = []"
  shows "chunk_step lines fp (reps, cursor) chunk =
     (case change_context chunk of
        None \<Rightarrow> Inr (reps @ [(int (length lines), 0, new_lines chunk)], cursor)
      | Some ctx \<Rightarrow>
          if ctx = [] then Inr (reps @ [(int (length lines), 0, new_lines chunk)], cursor)
          else if seekSequence lines [ctx] cursor = - 1
          then Inl (Error (''Failed to find context '' @ [CHR 0x27] @ ctx @ [CHR 0x27] @
                                  '' in '' @ fp))
          else Inr (reps @ [(seekSequence lines [ctx] cursor, 1, new_lines chunk)],
                    seekSequence lines [ctx] cursor))"
  using assms by (auto simp: chunk_step_def truthy_def Let_def split: option.splits)

lemma chunk_step_emits_one:
  "chunk_step lines fp (reps, cursor) chunk = Inr (reps', cursor') \<Longrightarrow>
   \<exists>r. reps' = reps @ [r]"
  by (auto simp: chunk_step_def Let_def split: option.splits if_splits sum.splits prod.splits)

lemma computeReplacements_loop_emits:
  "computeReplacements_loop lines fp chunks (reps, cursor) = Inr (reps', cursor') \<Longrightarrow>
   \<exists>rs. reps' = reps @ rs \<and> length rs = length chunks"
proof (induction chunks arbitrary: reps cursor)
  case Nil
  then show ?case by simp
next
  case (Cons chunk chunks)
  from Cons.prems obtain r1 c1 where
    s: "chunk_step lines fp (reps, cursor) chunk = Inr (r1, c1)" and
    l: "computeReplacements_loop lines fp chunks (r1, c1) = Inr (reps', cursor')"
    by (auto split: sum.splits)
  from chunk_step_emits_one [OF s] obtain r where r: "r1 = reps @ [r]" by blast
  from Cons.IH [OF l] obtain rs where "reps' = r1 @ rs" "length rs = length chunks" by blast
  then show ?case using r by simp
qed


text \<open>
  Claim C1.  For every chunk whose \<open>old_lines\<close> is empty, in a list of chunks on which
  \<open>computeReplacements\<close> succeeds, the loop emits exactly one replacement (the result is the
  emitted list, sorted by start index).  When \<open>change_context\<close> is present (a non-empty
  string), it is found at the index \<open>c\<close> that \<open>seekSequence\<close> returns from the current
  cursor, the replacement is \<open>(c, 1, new_lines)\<close>, and applying it to the original lines
  replaces exactly line \<open>c\<close> with \<open>new_lines\<close>.  When no \<open>change_context\<close> is present
  (\<^verbatim>\<open>undefined\<close>, or the empty string, which the code treats alike), the replacement is
  \<open>(length originalLines, 0, new_lines)\<close>, and applying it appends \<open>new_lines\<close> to the
  original lines, whatever they are.
\<close>

theorem computeReplacements_empty_old_lines:
  assumes run: "computeReplacements originalLines filePath (pre @ chunk # post) =
                  Inr sorted_replacements"
      and empty: "old_lines chunk = []"
  shows "\<exists>reps0 cursor emitted cursor' rest.
           computeReplacements_loop originalLines filePath pre ([], 0) = Inr (reps0, cursor) \<and>
           length reps0 = length pre \<and>
           chunk_step originalLines filePath (reps0, cursor) chunk =
             Inr (reps0 @ [emitted], cursor') \<and>
           length rest = length post \<and>
           sorted_replacements = sort_key fst (reps0 @ emitted # rest) \<and>
           (\<forall>ctx. change_context chunk = Some ctx \<and> ctx \<noteq> [] \<longrightarrow>
              seekSequence originalLines [ctx] cursor \<noteq> - 1 \<and>
              cursor \<le> seekSequence originalLines [ctx] cursor \<and>
              occurs_at originalLines [ctx] (seekSequence originalLines [ctx] cursor) \<and>
              emitted = (seekSequence originalLines [ctx] cursor, 1, new_lines chunk) \<and>
              applyReplacements originalLines [emitted] =
                take (nat (seekSequence originalLines [ctx] cursor)) originalLines @
                new_lines chunk @
                drop (nat (seekSequence originalLines [ctx] cursor) + 1) originalLines) \<and>
           (\<not> truthy (change_context chunk) \<longrightarrow>
              emitted = (int (length originalLines), 0, new_lines chunk) \<and>
              applyReplacements originalLines [emitted] = originalLines @ new_lines chunk)"
proof -
  from run obtain replacements lineIndex where
    l: "computeReplacements_loop originalLines filePath (pre @ chunk # post) ([], 0) =
          Inr (replacements, lineIndex)" and
    s: "sorted_replacements = sort_key fst replacements"
    by (auto simp: computeReplacements_def split: sum.splits)
  from l obtain reps0 cursor where
    p: "computeReplacements_loop originalLines filePath pre ([], 0) = Inr (reps0, cursor)" and
    q: "computeReplacements_loop originalLines filePath (chunk # post) (reps0, cursor) =
          Inr (replacements, lineIndex)"
    by (auto simp: computeReplacements_loop_append split: sum.splits)
  from q obtain reps1 cursor' where
    c: "chunk_step originalLines filePath (reps0, cursor) chunk = Inr (reps1, cursor')" and
    t: "computeReplacements_loop originalLines filePath post (reps1, cursor') =
          Inr (replacements, lineIndex)"
    by (auto split: sum.splits)
  from chunk_step_emits_one [OF c] obtain emitted where e: "reps1 = reps0 @ [emitted]"
    by blast
  from computeReplacements_loop_emits [OF p] have n0: "length reps0 = length pre"
    by auto
  from computeReplacements_loop_emits [OF t] obtain rest where
    r: "replacements = reps1 @ rest" and nr: "length rest = length post"
    by blast
  note ins = chunk_step_insertion [OF empty, of originalLines filePath reps0 cursor]
  have ctx: "seekSequence originalLines [ctx] cursor \<noteq> - 1 \<and>
              cursor \<le> seekSequence originalLines [ctx] cursor \<and>
              occurs_at originalLines [ctx] (seekSequence originalLines [ctx] cursor) \<and>
              emitted = (seekSequence originalLines [ctx] cursor, 1, new_lines chunk) \<and>
              applyReplacements originalLines [emitted] =
                take (nat (seekSequence originalLines [ctx] cursor)) originalLines @
                new_lines chunk @
                drop (nat (seekSequence originalLines [ctx] cursor) + 1) originalLines"
    if h: "change_context chunk = Some ctx \<and> ctx \<noteq> []" for ctx
  proof -
    let ?c = "seekSequence originalLines [ctx] cursor"
    have f: "?c \<noteq> - 1" and em: "emitted = (?c, 1, new_lines chunk)"
      using ins c e h by (auto split: if_splits)
    note o = seekSequence_found [OF f]
    then have b: "0 \<le> ?c" "?c + 1 \<le> int (length originalLines)"
      by (auto simp: occurs_at_def)
    have "applyReplacements originalLines [emitted] =
            take (nat ?c) originalLines @ new_lines chunk @ drop (nat ?c + 1) originalLines"
      using apply_replacement_in_range [OF b(1) _ b(2), of "new_lines chunk"]
      by (simp add: applyReplacements_def em)
    then show ?thesis using f o em by simp
  qed
  have app: "emitted = (int (length originalLines), 0, new_lines chunk) \<and>
              applyReplacements originalLines [emitted] = originalLines @ new_lines chunk"
    if h: "\<not> truthy (change_context chunk)"
  proof -
    have em: "emitted = (int (length originalLines), 0, new_lines chunk)"
      using ins c e h by (auto simp: truthy_def split: option.splits if_splits)
    have "applyReplacements originalLines [emitted] = originalLines @ new_lines chunk"
      using apply_replacement_in_range [of "int (length originalLines)" 0 originalLines
          "new_lines chunk"]
      by (simp add: applyReplacements_def em)
    then show ?thesis using em by simp
  qed
  have "sorted_replacements = sort_key fst (reps0 @ emitted # rest)"
    using s r e by simp
  then show ?thesis
    using p n0 c e nr ctx app by blast
qed


theorem computeReplacements_empty_old_lines_witness:
  "computeReplacements [''a'', ''b''] ''f''
     ([] @ \<lparr>old_lines = [], new_lines = [''x'', ''y''], change_context = Some ''b'',
             is_end_of_file = None\<rparr> #
      [\<lparr>old_lines = [], new_lines = [''z''], change_context = None, is_end_of_file = None\<rparr>]) =
     Inr [(1, 1, [''x'', ''y'']), (2, 0, [''z''])] \<and>
   applyReplacements [''a'', ''b''] [(1, 1, [''x'', ''y''])] = [''a'', ''x'', ''y''] \<and>
   applyReplacements [''a'', ''b''] [(2, 0, [''z''])] = [''a'', ''b'', ''z'']"
proof -
  let ?c1 = "\<lparr>old_lines = [], new_lines = [''x'', ''y''], change_context = Some ''b'',
             is_end_of_file = None\<rparr>"
  let ?c2 = "\<lparr>old_lines = [], new_lines = [''z''], change_context = None, is_end_of_file = None\<rparr>"
  have s0: "seekSequence [''a'', ''b''] [''b''] 0 = 1"
    by (simp add: seekSequence_def seek_from.simps line_at_def)
  have r1: "computeReplacements [''a'', ''b''] ''f'' ([] @ ?c1 # [?c2]) =
              Inr [(1, 1, [''x'', ''y'']), (2, 0, [''z''])]"
    by (simp add: computeReplacements_def chunk_step_def s0 truthy_def)
  have r2: "computeReplacements [''a'', ''b''] ''f'' ([?c1] @ ?c2 # []) =
              Inr [(1, 1, [''x'', ''y'']), (2, 0, [''z''])]"
    using r1 by simp
  have e1: "old_lines ?c1 = []" and e2: "old_lines ?c2 = []"
    by simp_all
  have a1: "applyReplacements [''a'', ''b''] [(1, 1, [''x'', ''y''])] = [''a'', ''x'', ''y'']"
    using computeReplacements_empty_old_lines [OF r1 e1]
    by (auto simp: s0)
  have a2: "applyReplacements [''a'', ''b''] [(2, 0, [''z''])] = [''a'', ''b'', ''z'']"
    using computeReplacements_empty_old_lines [OF r2 e2]
    by (auto simp: truthy_def)
  show ?thesis using r1 a1 a2 by simp
qed

section \<open>Properties of the new contents\<close>

lemma join_snoc:
  "xs \<noteq> [] \<Longrightarrow> join sep (xs @ [y]) = join sep xs @ sep @ y"
  by (induction sep xs rule: join.induct) auto

lemma join_ends_with_last:
  "xs \<noteq> [] \<Longrightarrow> \<exists>p. join sep xs = p @ last xs"
proof (induction sep xs rule: join.induct)
  case (3 sep x y ys)
  then obtain p where "join sep (y # ys) = p @ last (y # ys)" by auto
  then have "join sep (x # y # ys) = (x @ sep @ p) @ last (x # y # ys)" by simp
  then show ?case by blast
qed auto

lemma finish_contents_cases:
  "finish_contents L =
     (if L = [] then []
      else if last L \<noteq> [] then join [nl] L @ [nl]
      else join [nl] L)"
  by (auto simp: finish_contents_def join_snoc)

lemma finish_contents_empty_or_newline:
  "finish_contents L = [] \<or> endsWith_nl (finish_contents L)"
proof (cases "L = [] \<or> last L \<noteq> []")
  case True
  then show ?thesis by (auto simp: finish_contents_cases endsWith_nl_def)
next
  case False
  then have l: "L = butlast L @ [[]]"
    by (metis append_butlast_last_id)
  show ?thesis
  proof (cases "butlast L = []")
    case True
    with l have "L = [[]]" by simp
    then show ?thesis by (simp add: finish_contents_cases)
  next
    case b: False
    have "join [nl] L = join [nl] (butlast L) @ [nl]"
      using join_snoc [OF b, of "[nl]" "[]"] l by simp
    then show ?thesis using False by (simp add: finish_contents_cases endsWith_nl_def)
  qed
qed

lemma finish_contents_exactly_one:
  assumes "L \<noteq> []" "last L \<noteq> []" "last (last L) \<noteq> nl"
  shows "exactly_one_trailing_newline (finish_contents L)"
proof -
  obtain p where p: "join [nl] L = p @ last L"
    using join_ends_with_last [OF assms(1)] by blast
  have "last (join [nl] L) \<noteq> nl" "join [nl] L \<noteq> []"
    using p assms by auto
  then show ?thesis
    using assms by (simp add: finish_contents_cases exactly_one_trailing_newline_def endsWith_nl_def)
qed

text \<open>
  Claim C2, as stated: the new content always ends with exactly one trailing newline.
  It fails on a file that ends with three newlines (the new content ends with two), and
  on a chunk that deletes the only line (the new content is empty).
\<close>

theorem deriveNewContents_two_newlines:
  "deriveNewContents mem_ops (Map.empty(''f'' \<mapsto> ''a'' @ [nl, nl, nl])) ''f''
     [\<lparr>old_lines = [''a''], new_lines = [''b''], change_context = None, is_end_of_file = None\<rparr>] =
     Inr (''b'' @ [nl, nl]) \<and>
   \<not> exactly_one_trailing_newline (''b'' @ [nl, nl]) \<and>
   deriveNewContents mem_ops (Map.empty(''f'' \<mapsto> ''a'' @ [nl])) ''f''
     [\<lparr>old_lines = [''a''], new_lines = [], change_context = None, is_end_of_file = None\<rparr>] =
     Inr [] \<and>
   \<not> exactly_one_trailing_newline []"
  by (simp add: deriveNewContents_def mem_ops_def original_lines_def nl_def
      computeReplacements_def chunk_step_def seekSequence_def seek_from.simps line_at_def
      applyReplacements_def apply_replacement_def splice_delete_def splice_insert_def
      splice_start_def finish_contents_def exactly_one_trailing_newline_def endsWith_nl_def)


text \<open>
  Claim C2, amended.  Whenever \<open>deriveNewContents\<close> succeeds, the new content is the
  patched lines normalised: it is empty or ends with a newline.  It ends with exactly one
  trailing newline when the patched line list is not empty and its last line is not empty
  (and does not itself end with a newline); when the last patched line is empty, nothing
  is appended and the content is the lines joined by newlines; when there is no line
  left, the content is empty.
\<close>

theorem deriveNewContents_trailing_newline:
  assumes "deriveNewContents ops fs filePath chunks = Inr out"
  shows "\<exists>content replacements patched.
           fs_readFileSync ops filePath fs = Inr content \<and>
           computeReplacements (original_lines content) filePath chunks = Inr replacements \<and>
           patched = applyReplacements (original_lines content) replacements \<and>
           out = finish_contents patched \<and>
           (out = [] \<or> endsWith_nl out) \<and>
           (patched \<noteq> [] \<and> last patched \<noteq> [] \<and> last (last patched) \<noteq> nl \<longrightarrow>
              out = join [nl] patched @ [nl] \<and> exactly_one_trailing_newline out) \<and>
           (patched \<noteq> [] \<and> last patched = [] \<longrightarrow> out = join [nl] patched) \<and>
           (patched = [] \<longrightarrow> out = [])"
proof -
  from assms obtain content where c: "fs_readFileSync ops filePath fs = Inr content"
    by (auto simp: deriveNewContents_def split: sum.splits)
  from assms c obtain replacements where
    r: "computeReplacements (original_lines content) filePath chunks = Inr replacements"
    by (auto simp: deriveNewContents_def Let_def split: sum.splits)
  let ?p = "applyReplacements (original_lines content) replacements"
  have o: "out = finish_contents ?p"
    using assms c r by (simp add: deriveNewContents_def Let_def)
  have a: "out = [] \<or> endsWith_nl out"
    using finish_contents_empty_or_newline [of ?p] o by simp
  have b: "?p \<noteq> [] \<and> last ?p \<noteq> [] \<and> last (last ?p) \<noteq> nl \<longrightarrow>
              out = join [nl] ?p @ [nl] \<and> exactly_one_trailing_newline out"
    using finish_contents_exactly_one [of ?p] o by (simp add: finish_contents_cases)
  have d: "?p \<noteq> [] \<and> last ?p = [] \<longrightarrow> out = join [nl] ?p"
    using o by (simp add: finish_contents_cases)
  have e: "?p = [] \<longrightarrow> out = []"
    using o by (simp add: finish_contents_cases)
  show ?thesis using c r o a b d e by blast
qed

theorem deriveNewContents_trailing_newline_witness:
  "deriveNewContents mem_ops (Map.empty(''f'' \<mapsto> ''a'')) ''f''
     [\<lparr>old_lines = [''a''], new_lines = [''b''], change_context = None, is_end_of_file = None\<rparr>] =
     Inr (''b'' @ [nl]) \<and>
   exactly_one_trailing_newline (''b'' @ [nl]) \<and>
   deriveNewContents mem_ops (Map.empty(''f'' \<mapsto> ''a'' @ [nl, nl, nl])) ''f''
     [\<lparr>old_lines = [''a''], new_lines = [''b''], change_context = None, is_end_of_file = None\<rparr>] =
     Inr (''b'' @ [nl, nl]) \<and>
   endsWith_nl (''b'' @ [nl, nl]) \<and>
   deriveNewContents mem_ops (Map.empty(''f'' \<mapsto> ''a'' @ [nl])) ''f''
     [\<lparr>old_lines = [''a''], new_lines = [], change_context = None, is_end_of_file = None\<rparr>] =
     Inr []"
proof -
  let ?cs = "[\<lparr>old_lines = [''a''], new_lines = [''b''], change_context = None,
               is_end_of_file = None\<rparr>]"
  let ?ds = "[\<lparr>old_lines = [''a''], new_lines = [], change_context = None,
               is_end_of_file = None\<rparr>]"
  note defs = deriveNewContents_def mem_ops_def original_lines_def nl_def
      computeReplacements_def chunk_step_def seekSequence_def seek_from.simps line_at_def
      applyReplacements_def apply_replacement_def splice_delete_def splice_insert_def
      splice_start_def finish_contents_def
  have r1: "deriveNewContents mem_ops (Map.empty(''f'' \<mapsto> ''a'')) ''f'' ?cs = Inr (''b'' @ [nl])"
    by (simp add: defs)
  have r2: "deriveNewContents mem_ops (Map.empty(''f'' \<mapsto> ''a'' @ [nl, nl, nl])) ''f'' ?cs =
              Inr (''b'' @ [nl, nl])"
    by (simp add: defs)
  have r3: "deriveNewContents mem_ops (Map.empty(''f'' \<mapsto> ''a'' @ [nl])) ''f'' ?ds = Inr []"
    by (simp add: defs)
  have p: "applyReplacements (original_lines ''a'') [(0, 1, [''b''])] = [''b'']"
    by (simp add: original_lines_def nl_def
      applyReplacements_def apply_replacement_def splice_delete_def splice_insert_def
      splice_start_def)
  have c: "computeReplacements (original_lines ''a'') ''f'' ?cs = Inr [(0, 1, [''b''])]"
    by (simp add: original_lines_def nl_def
      computeReplacements_def chunk_step_def seekSequence_def seek_from.simps line_at_def)
  have e1: "exactly_one_trailing_newline (''b'' @ [nl])"
    using deriveNewContents_trailing_newline [OF r1] p c
    by (auto simp: mem_ops_def nl_def)
  have e2: "endsWith_nl (''b'' @ [nl, nl])"
    using deriveNewContents_trailing_newline [OF r2] by auto
  have "\<exists>content replacements. finish_contents
          (applyReplacements (original_lines content) replacements) = []"
    using deriveNewContents_trailing_newline [OF r3] by metis
  then show ?thesis using r1 r2 r3 e1 e2 by simp
qed

lemma split_on_not_Nil: "split_on c s \<noteq> []"
  by (induction s) (auto split: list.splits)

lemma join_split_on: "join [c] (split_on c s) = s"
proof (induction s)
  case Nil
  show ?case by simp
next
  case (Cons x s)
  obtain l ls where e: "split_on c s = l # ls"
    using split_on_not_Nil [of c s] by (cases "split_on c s") auto
  show ?case
  proof (cases "x = c")
    case True
    then show ?thesis using Cons e by simp
  next
    case False
    then show ?thesis using Cons e by (cases ls) auto
  qed
qed

lemma split_on_snoc_sep: "split_on c (t @ [c]) = split_on c t @ [[]]"
proof (induction t)
  case Nil
  show ?case by simp
next
  case (Cons x t)
  obtain l ls where e: "split_on c t = l # ls"
    using split_on_not_Nil [of c t] by (cases "split_on c t") auto
  show ?case using Cons e by simp
qed

lemma split_on_single: "split_on c t = [l] \<Longrightarrow> l = t"
  using join_split_on [of c t] by simp

lemma last_split_on: "last (split_on c t) = [] \<longleftrightarrow> t = [] \<or> last t = c"
proof (induction t)
  case Nil
  show ?case by simp
next
  case (Cons x t)
  obtain l ls where e: "split_on c t = l # ls"
    using split_on_not_Nil [of c t] by (cases "split_on c t") auto
  show ?case
  proof (cases "x = c")
    case True
    then show ?thesis using Cons e by auto
  next
    case False
    show ?thesis
    proof (cases "ls = []")
      case True
      then have "l = t" using e split_on_single by simp
      then show ?thesis using Cons e True False by auto
    next
      case n: False
      then have "t \<noteq> []" using e by auto
      then show ?thesis using Cons e n False by auto
    qed
  qed
qed

text \<open>
  The contents that the reading and the writing of the lines leave as they are: the
  empty text, and a text that ends with one newline after a character that is not a
  newline.
\<close>

lemma finish_original_lines:
  assumes "content = [] \<or> (endsWith_nl content \<and> butlast content \<noteq> [] \<and>
                             \<not> endsWith_nl (butlast content))"
  shows "finish_contents (original_lines content) = content"
proof (cases "content = []")
  case True
  then show ?thesis by (simp add: original_lines_def finish_contents_def)
next
  case False
  with assms obtain t where c: "content = t @ [nl]" and t: "t \<noteq> []" "last t \<noteq> nl"
    by (metis append_butlast_last_id endsWith_nl_def)
  have o: "original_lines (t @ [nl]) = split_on nl t"
    by (simp add: original_lines_def split_on_snoc_sep)
  have l: "last (split_on nl t) \<noteq> []"
    using t by (simp add: last_split_on)
  have "finish_contents (split_on nl t) = join [nl] (split_on nl t) @ [nl]"
    using l split_on_not_Nil [of nl t] by (simp add: finish_contents_cases)
  then show ?thesis by (simp add: o c join_split_on)
qed


lemma apply_replacement_itself:
  assumes "replaces_by_itself lines r"
  shows "apply_replacement r lines = lines"
proof -
  obtain s l new where r: "r = (s, l, new)" by (cases r) auto
  from assms r have b: "0 \<le> s" "0 \<le> l" "s + l \<le> int (length lines)"
    and n: "take (nat l) (drop (nat s) lines) = new"
    by (auto simp: replaces_by_itself_def)
  have "take (nat l) (drop (nat s) lines) @ drop (nat s + nat l) lines = drop (nat s) lines"
    by (metis add.commute append_take_drop_id drop_drop)
  then have "take (nat s) lines @ new @ drop (nat s + nat l) lines = lines"
    using n by simp
  then show ?thesis
    using apply_replacement_in_range [OF b, of new] r by simp
qed

lemma applyReplacements_itself:
  assumes "list_all (replaces_by_itself lines) rs"
  shows "applyReplacements lines rs = lines"
proof -
  have "fold apply_replacement xs lines = lines"
    if "\<forall>r\<in>set xs. replaces_by_itself lines r" for xs
    using that by (induction xs) (auto simp: apply_replacement_itself)
  then show ?thesis
    using assms by (simp add: applyReplacements_def list_all_iff)
qed

text \<open>What the loop body does for a chunk whose \<open>old_lines\<close> is not empty, when it succeeds.\<close>

lemma chunk_step_search:
  assumes "old_lines chunk \<noteq> []"
      and "chunk_step lines fp (reps, cursor) chunk = Inr (reps', cursor')"
  shows "(seekSequence lines (old_lines chunk) (context_cursor lines chunk cursor) \<noteq> - 1 \<and>
          reps' = reps @ [(seekSequence lines (old_lines chunk) (context_cursor lines chunk cursor),
                           int (length (old_lines chunk)), new_lines chunk)] \<and>
          cursor' = seekSequence lines (old_lines chunk) (context_cursor lines chunk cursor) +
                    int (length (old_lines chunk))) \<or>
         (last (old_lines chunk) = [] \<and>
          seekSequence lines (butlast (old_lines chunk)) (context_cursor lines chunk cursor) \<noteq> - 1 \<and>
          reps' = reps @
            [(seekSequence lines (butlast (old_lines chunk)) (context_cursor lines chunk cursor),
              int (length (butlast (old_lines chunk))),
              if 0 < length (new_lines chunk) \<and> last (new_lines chunk) = []
              then butlast (new_lines chunk) else new_lines chunk)] \<and>
          cursor' = seekSequence lines (butlast (old_lines chunk))
                      (context_cursor lines chunk cursor) +
                    int (length (butlast (old_lines chunk))))"
  using assms
  by (auto simp: chunk_step_def context_cursor_def Let_def
      split: option.splits if_splits sum.splits prod.splits)

lemma occurs_at_itself:
  assumes "seekSequence lines pattern start \<noteq> - 1"
  shows "replaces_by_itself lines (seekSequence lines pattern start, int (length pattern), pattern)"
proof -
  let ?s = "seekSequence lines pattern start"
  have o: "0 \<le> ?s" "nat ?s + length pattern \<le> length lines"
    "take (length pattern) (drop (nat ?s) lines) = pattern"
    using seekSequence_found [OF assms] by (auto simp: occurs_at_def)
  have "?s + int (length pattern) \<le> int (length lines)"
    using o(1,2) by arith
  then show ?thesis using o by (simp add: replaces_by_itself_def)
qed

lemma chunk_step_itself:
  assumes u: "unchanged_chunk chunk"
      and s: "chunk_step lines fp (reps, cursor) chunk = Inr (reps', cursor')"
  shows "\<exists>r. reps' = reps @ [r] \<and> replaces_by_itself lines r"
proof (cases "old_lines chunk = []")
  case True
  then have "new_lines chunk = []" "change_context chunk = None \<or> change_context chunk = Some []"
    using u by (auto simp: unchanged_chunk_def)
  then have "reps' = reps @ [(int (length lines), 0, [])]"
    using s chunk_step_insertion [OF True, of lines fp reps cursor] by auto
  then show ?thesis by (simp add: replaces_by_itself_def)
next
  case False
  have n: "new_lines chunk = old_lines chunk"
    using u by (simp add: unchanged_chunk_def)
  have b: "(if 0 < length (old_lines chunk) \<and> last (old_lines chunk) = []
              then butlast (old_lines chunk) else old_lines chunk) = butlast (old_lines chunk)"
    if "last (old_lines chunk) = []"
    using that False by simp
  from chunk_step_search [OF False s] show ?thesis
    using occurs_at_itself [of lines "old_lines chunk" "context_cursor lines chunk cursor"]
      occurs_at_itself [of lines "butlast (old_lines chunk)" "context_cursor lines chunk cursor"]
      b
    unfolding n by auto
qed

lemma computeReplacements_loop_itself:
  "list_all unchanged_chunk chunks \<Longrightarrow>
   computeReplacements_loop lines fp chunks (reps, cursor) = Inr (reps', cursor') \<Longrightarrow>
   list_all (replaces_by_itself lines) reps \<Longrightarrow>
   list_all (replaces_by_itself lines) reps'"
proof (induction chunks arbitrary: reps cursor)
  case Nil
  then show ?case by simp
next
  case (Cons chunk chunks)
  from Cons.prems(2) obtain r1 c1 where
    s: "chunk_step lines fp (reps, cursor) chunk = Inr (r1, c1)" and
    l: "computeReplacements_loop lines fp chunks (r1, c1) = Inr (reps', cursor')"
    by (auto split: sum.splits)
  from Cons.prems(1) have u: "unchanged_chunk chunk" and us: "list_all unchanged_chunk chunks"
    by simp_all
  from chunk_step_itself [OF u s] Cons.prems(3) have "list_all (replaces_by_itself lines) r1"
    by auto
  from Cons.IH [OF us l this] show ?case .
qed

lemma computeReplacements_itself:
  assumes "list_all unchanged_chunk chunks"
      and "computeReplacements lines fp chunks = Inr replacements"
  shows "applyReplacements lines replacements = lines"
proof -
  from assms(2) obtain reps cursor where
    l: "computeReplacements_loop lines fp chunks ([], 0) = Inr (reps, cursor)" and
    s: "replacements = sort_key fst reps"
    by (auto simp: computeReplacements_def split: sum.splits)
  have "list_all (replaces_by_itself lines) reps"
    using computeReplacements_loop_itself [OF assms(1) l] by simp
  then have "list_all (replaces_by_itself lines) replacements"
    by (simp add: s list_all_iff)
  then show ?thesis by (rule applyReplacements_itself)
qed

lemma finish_original_lines_iff:
  "finish_contents (original_lines content) = content \<longleftrightarrow>
   content = [] \<or> (endsWith_nl content \<and> butlast content \<noteq> [] \<and>
                    \<not> endsWith_nl (butlast content))"
proof
  assume "content = [] \<or> (endsWith_nl content \<and> butlast content \<noteq> [] \<and>
                    \<not> endsWith_nl (butlast content))"
  then show "finish_contents (original_lines content) = content"
    by (rule finish_original_lines)
next
  assume a: "finish_contents (original_lines content) = content"
  show "content = [] \<or> (endsWith_nl content \<and> butlast content \<noteq> [] \<and>
                    \<not> endsWith_nl (butlast content))"
  proof (cases "content = []")
    case True
    then show ?thesis by simp
  next
    case False
    then have "endsWith_nl content"
      using finish_contents_empty_or_newline [of "original_lines content"] a by simp
    then obtain t where c: "content = t @ [nl]"
      by (metis append_butlast_last_id endsWith_nl_def)
    have o: "original_lines (t @ [nl]) = split_on nl t"
      by (simp add: original_lines_def split_on_snoc_sep)
    have "last (split_on nl t) \<noteq> []"
    proof
      assume "last (split_on nl t) = []"
      then have "finish_contents (split_on nl t) = t"
        using split_on_not_Nil [of nl t] by (simp add: finish_contents_cases join_split_on)
      then show False using a c o by simp
    qed
    then have "t \<noteq> [] \<and> last t \<noteq> nl" by (simp add: last_split_on)
    then show ?thesis by (simp add: c endsWith_nl_def)
  qed
qed

text \<open>
  Claim C4, as stated: an Update hunk whose chunks have \<open>old_lines\<close> equal to \<open>new_lines\<close>
  leaves the content byte-identical.  It fails on a file with no final newline (one is
  added), and on a chunk with a context and both lists empty (the context line is
  deleted).
\<close>

theorem unchanged_update_not_identical:
  "deriveNewContents mem_ops (Map.empty(''f'' \<mapsto> ''a'')) ''f''
     [\<lparr>old_lines = [''a''], new_lines = [''a''], change_context = None, is_end_of_file = None\<rparr>] =
     Inr (''a'' @ [nl]) \<and>
   ''a'' @ [nl] \<noteq> ''a'' \<and>
   deriveNewContents mem_ops (Map.empty(''f'' \<mapsto> ''a'' @ [nl] @ ''b'' @ [nl])) ''f''
     [\<lparr>old_lines = [], new_lines = [], change_context = Some ''a'', is_end_of_file = None\<rparr>] =
     Inr (''b'' @ [nl]) \<and>
   ''b'' @ [nl] \<noteq> ''a'' @ [nl] @ ''b'' @ [nl]"
  by (simp add: deriveNewContents_def mem_ops_def original_lines_def nl_def
      computeReplacements_def chunk_step_def seekSequence_def seek_from.simps line_at_def
      truthy_def applyReplacements_def apply_replacement_def splice_delete_def
      splice_insert_def splice_start_def finish_contents_def)

text \<open>
  Claim C4, amended.  When every chunk of an Update hunk has \<open>old_lines\<close> equal to
  \<open>new_lines\<close> (and no context when both are empty), and the chunks all match, applying the
  replacements leaves the line list as it is, and the new content is the original lines
  normalised.  It is byte-identical to the original content exactly when that content is
  empty or ends with one newline that follows a character other than a newline.
\<close>

theorem unchanged_update_is_noop_on_lines:
  assumes read: "fs_readFileSync ops filePath fs = Inr content"
      and same: "list_all unchanged_chunk chunks"
      and match: "computeReplacements (original_lines content) filePath chunks = Inr replacements"
  shows "applyReplacements (original_lines content) replacements = original_lines content \<and>
         deriveNewContents ops fs filePath chunks = Inr (finish_contents (original_lines content)) \<and>
         (deriveNewContents ops fs filePath chunks = Inr content \<longleftrightarrow>
            content = [] \<or> (endsWith_nl content \<and> butlast content \<noteq> [] \<and>
                             \<not> endsWith_nl (butlast content)))"
proof -
  have a: "applyReplacements (original_lines content) replacements = original_lines content"
    using computeReplacements_itself [OF same match] .
  have d: "deriveNewContents ops fs filePath chunks =
             Inr (finish_contents (original_lines content))"
    using read match a by (simp add: deriveNewContents_def Let_def)
  show ?thesis
    using a d finish_original_lines_iff [of content] by simp
qed


theorem unchanged_update_is_noop_on_lines_witness:
  "fs_readFileSync mem_ops ''f'' (Map.empty(''f'' \<mapsto> ''a'' @ [nl] @ ''b'' @ [nl])) =
     Inr (''a'' @ [nl] @ ''b'' @ [nl]) \<and>
   list_all unchanged_chunk
     [\<lparr>old_lines = [''a''], new_lines = [''a''], change_context = Some ''a'', is_end_of_file = None\<rparr>,
      \<lparr>old_lines = [''b'', []], new_lines = [''b'', []], change_context = None,
        is_end_of_file = None\<rparr>,
      \<lparr>old_lines = [], new_lines = [], change_context = None, is_end_of_file = None\<rparr>] \<and>
   computeReplacements (original_lines (''a'' @ [nl] @ ''b'' @ [nl])) ''f''
     [\<lparr>old_lines = [''a''], new_lines = [''a''], change_context = Some ''a'', is_end_of_file = None\<rparr>,
      \<lparr>old_lines = [''b'', []], new_lines = [''b'', []], change_context = None,
        is_end_of_file = None\<rparr>,
      \<lparr>old_lines = [], new_lines = [], change_context = None, is_end_of_file = None\<rparr>] = Inr [(0, 1, [''a'']), (1, 1, [''b'']), (2, 0, [])] \<and>
   deriveNewContents mem_ops (Map.empty(''f'' \<mapsto> ''a'' @ [nl] @ ''b'' @ [nl])) ''f''
     [\<lparr>old_lines = [''a''], new_lines = [''a''], change_context = Some ''a'', is_end_of_file = None\<rparr>,
      \<lparr>old_lines = [''b'', []], new_lines = [''b'', []], change_context = None,
        is_end_of_file = None\<rparr>,
      \<lparr>old_lines = [], new_lines = [], change_context = None, is_end_of_file = None\<rparr>] = Inr (''a'' @ [nl] @ ''b'' @ [nl])"
proof -
  let ?content = "''a'' @ [nl] @ ''b'' @ [nl]"
  let ?fs = "Map.empty(''f'' \<mapsto> ?content)"
  let ?cs = "[\<lparr>old_lines = [''a''], new_lines = [''a''], change_context = Some ''a'',
                is_end_of_file = None\<rparr>,
              \<lparr>old_lines = [''b'', []], new_lines = [''b'', []], change_context = None,
                is_end_of_file = None\<rparr>,
              \<lparr>old_lines = [], new_lines = [], change_context = None,
                is_end_of_file = None\<rparr>]"
  have r: "fs_readFileSync mem_ops ''f'' ?fs = Inr ?content"
    by (simp add: mem_ops_def)
  have u: "list_all unchanged_chunk ?cs"
    by (simp add: unchanged_chunk_def)
  have m: "computeReplacements (original_lines ?content) ''f'' ?cs =
             Inr [(0, 1, [''a'']), (1, 1, [''b'']), (2, 0, [])]"
    by (simp add: original_lines_def nl_def computeReplacements_def chunk_step_def
        seekSequence_def seek_from.simps line_at_def truthy_def Let_def)
  have c: "endsWith_nl ?content \<and> butlast ?content \<noteq> [] \<and> \<not> endsWith_nl (butlast ?content)"
    by (simp add: endsWith_nl_def nl_def)
  have "deriveNewContents mem_ops ?fs ''f'' ?cs = Inr ?content"
    using unchanged_update_is_noop_on_lines [OF r u m] c by blast
  then show ?thesis using r u m by blast
qed

section \<open>Overlap of replacements\<close>

lemma context_cursor_ge:
  assumes "chunk_step lines fp (reps, cursor) chunk = Inr (reps', cursor')"
  shows "cursor \<le> context_cursor lines chunk cursor"
proof (cases "change_context chunk")
  case None
  then show ?thesis by (simp add: context_cursor_def)
next
  case (Some ctx)
  show ?thesis
  proof (cases "ctx = []")
    case True
    then show ?thesis using Some by (simp add: context_cursor_def)
  next
    case False
    have "seekSequence lines [ctx] cursor \<noteq> - 1"
      using assms Some False by (auto simp: chunk_step_def Let_def split: if_splits)
    from seekSequence_found [OF this] show ?thesis
      using Some False by (simp add: context_cursor_def)
  qed
qed

lemma spans_inv_match:
  assumes inv: "spans_inv lines (reps, cursor)"
      and c: "cursor \<le> start"
      and f: "seekSequence lines pattern start \<noteq> - 1"
  shows "spans_inv lines
           (reps @ [(seekSequence lines pattern start, int (length pattern), newSlice)],
            seekSequence lines pattern start + int (length pattern))"
proof -
  let ?s = "seekSequence lines pattern start"
  let ?r = "(?s, int (length pattern), newSlice)"
  from seekSequence_found [OF f] have p: "pattern \<noteq> []" and g: "start \<le> ?s"
    and o: "occurs_at lines pattern ?s" by auto
  have l: "1 \<le> int (length pattern)" using p by (cases pattern) auto
  have e: "?s + int (length pattern) \<le> int (length lines)"
    using o by (auto simp: occurs_at_def)
  have na: "\<not> is_append lines ?r" using p by (simp add: is_append_def)
  have b: "span_before m ?r" if "m \<in> set (filter (\<lambda>r. \<not> is_append lines r) reps)" for m
    using that inv c g by (auto simp: spans_inv_def span_before_def)
  have "sorted_wrt span_before (filter (\<lambda>r. \<not> is_append lines r) (reps @ [?r]))"
    using inv na b by (simp add: spans_inv_def sorted_wrt_append)
  moreover have "\<forall>r\<in>set (reps @ [?r]). is_append lines r \<or>
           (1 \<le> fst (snd r) \<and> fst r + fst (snd r) \<le> ?s + int (length pattern))"
    using inv c g l by (auto simp: spans_inv_def)
  ultimately show ?thesis using e by (simp add: spans_inv_def)
qed

lemma chunk_step_spans_inv:
  assumes n: "\<not> context_insertion chunk"
      and s: "chunk_step lines fp (reps, cursor) chunk = Inr (reps', cursor')"
      and inv: "spans_inv lines (reps, cursor)"
  shows "spans_inv lines (reps', cursor')"
proof (cases "old_lines chunk = []")
  case True
  then have "\<not> truthy (change_context chunk)"
    using n by (simp add: context_insertion_def)
  then have "reps' = reps @ [(int (length lines), 0, new_lines chunk)] \<and> cursor' = cursor"
    using s chunk_step_insertion [OF True, of lines fp reps cursor]
    by (auto simp: truthy_def split: option.splits if_splits)
  then show ?thesis using inv by (auto simp: spans_inv_def is_append_def)
next
  case False
  note c = context_cursor_ge [OF s]
  from chunk_step_search [OF False s] show ?thesis
  proof
    assume a: "seekSequence lines (old_lines chunk) (context_cursor lines chunk cursor) \<noteq> - 1 \<and>
      reps' = reps @ [(seekSequence lines (old_lines chunk) (context_cursor lines chunk cursor),
                       int (length (old_lines chunk)), new_lines chunk)] \<and>
      cursor' = seekSequence lines (old_lines chunk) (context_cursor lines chunk cursor) +
                int (length (old_lines chunk))"
    then show ?thesis using spans_inv_match [OF inv c, of "old_lines chunk"] by simp
  next
    assume a: "last (old_lines chunk) = [] \<and>
      seekSequence lines (butlast (old_lines chunk)) (context_cursor lines chunk cursor) \<noteq> - 1 \<and>
      reps' = reps @
            [(seekSequence lines (butlast (old_lines chunk)) (context_cursor lines chunk cursor),
              int (length (butlast (old_lines chunk))),
              if 0 < length (new_lines chunk) \<and> last (new_lines chunk) = []
              then butlast (new_lines chunk) else new_lines chunk)] \<and>
      cursor' = seekSequence lines (butlast (old_lines chunk)) (context_cursor lines chunk cursor) +
                int (length (butlast (old_lines chunk)))"
    then show ?thesis using spans_inv_match [OF inv c, of "butlast (old_lines chunk)"] by simp
  qed
qed


lemma computeReplacements_loop_spans_inv:
  "list_all (\<lambda>c. \<not> context_insertion c) chunks \<Longrightarrow>
   computeReplacements_loop lines fp chunks (reps, cursor) = Inr (reps', cursor') \<Longrightarrow>
   spans_inv lines (reps, cursor) \<Longrightarrow>
   spans_inv lines (reps', cursor')"
proof (induction chunks arbitrary: reps cursor)
  case Nil
  then show ?case by simp
next
  case (Cons chunk chunks)
  from Cons.prems(2) obtain r1 c1 where
    s: "chunk_step lines fp (reps, cursor) chunk = Inr (r1, c1)" and
    l: "computeReplacements_loop lines fp chunks (r1, c1) = Inr (reps', cursor')"
    by (auto split: sum.splits)
  from Cons.prems(1) have n: "\<not> context_insertion chunk"
    and ns: "list_all (\<lambda>c. \<not> context_insertion c) chunks"
    by simp_all
  from Cons.IH [OF ns l chunk_step_spans_inv [OF n s Cons.prems(3)]] show ?case .
qed

text \<open>
  A stable sort by start index puts the matched spans first, in the order of their
  emission, and the appends at the end of the file after them.
\<close>

lemma sort_spans:
  assumes "spans_inv lines (reps, cursor)"
  shows "sort_key fst reps =
           filter (\<lambda>r. \<not> is_append lines r) reps @ filter (is_append lines) reps"
proof (rule properties_for_sort_key)
  let ?ms = "filter (\<lambda>r. \<not> is_append lines r) reps"
  let ?as = "filter (is_append lines) reps"
  show "mset (?ms @ ?as) = mset reps"
    by (induction reps) auto
  have key: "\<forall>r\<in>set reps. \<not> is_append lines r \<longrightarrow> fst r < int (length lines)"
    using assms by (auto simp: spans_inv_def)
  have keya: "\<forall>r\<in>set reps. is_append lines r \<longrightarrow> fst r = int (length lines)"
    by (auto simp: is_append_def)
  have m: "sorted (map fst ?ms)"
  proof -
    have w: "sorted_wrt span_before ?ms" and p: "\<forall>r\<in>set ?ms. 1 \<le> fst (snd r)"
      using assms by (auto simp: spans_inv_def)
    have "fst u \<le> fst v" if "u \<in> set ?ms" "span_before u v" for u v
      using that p by (fastforce simp: span_before_def)
    then have "sorted_wrt (\<lambda>a b. fst a \<le> fst b) ?ms"
      using w by (auto intro: sorted_wrt_mono_rel [of ?ms span_before])
    then show ?thesis by (simp add: sorted_map)
  qed
  have "sorted_wrt (\<lambda>u v. True) ?as" by simp
  then have "sorted_wrt (\<lambda>a b. fst a \<le> fst b) ?as"
    by (rule sorted_wrt_mono_rel [rotated]) (auto simp: is_append_def)
  then have a: "sorted (map fst ?as)" by (simp add: sorted_map)
  have c: "\<forall>x\<in>set ?ms. \<forall>y\<in>set ?as. fst x \<le> fst y"
    using key keya by fastforce
  show "sorted (map fst (?ms @ ?as))"
    unfolding map_append sorted_append using m a c by auto
  fix k
  assume "k \<in> set (?ms @ ?as)"
  have "filter (\<lambda>x. fst k = fst x) ?ms @ filter (\<lambda>x. fst k = fst x) ?as =
        filter (\<lambda>x. fst k = fst x) reps"
  proof (cases "fst k = int (length lines)")
    case True
    have 1: "filter (\<lambda>x. fst k = fst x) ?ms = []"
      using key True by (fastforce simp: filter_empty_conv)
    have 2: "filter (\<lambda>x. fst k = fst x) ?as = filter (\<lambda>x. fst k = fst x) reps"
      unfolding filter_filter
    proof (rule filter_cong [OF refl])
      fix x assume "x \<in> set reps"
      then show "(is_append lines x \<and> fst k = fst x) = (fst k = fst x)"
        using key True by fastforce
    qed
    show ?thesis by (simp only: 1 2 append_Nil)
  next
    case False
    have 1: "filter (\<lambda>x. fst k = fst x) ?as = []"
      using keya False by (fastforce simp: filter_empty_conv)
    have 2: "filter (\<lambda>x. fst k = fst x) ?ms = filter (\<lambda>x. fst k = fst x) reps"
      unfolding filter_filter
    proof (rule filter_cong [OF refl])
      fix x assume "x \<in> set reps"
      then show "(\<not> is_append lines x \<and> fst k = fst x) = (fst k = fst x)"
        using keya False by fastforce
    qed
    show ?thesis by (simp only: 1 2 append_Nil2)
  qed
  then show "filter (\<lambda>x. fst k = fst x) (?ms @ ?as) = filter (\<lambda>x. fst k = fst x) reps"
    by simp
qed

text \<open>
  When no chunk inserts at its context, the replacements that \<open>computeReplacements\<close>
  returns are in ascending order and each ends at or before the start of every later one.
\<close>

lemma computeReplacements_disjoint:
  assumes "list_all (\<lambda>c. \<not> context_insertion c) chunks"
      and "computeReplacements lines fp chunks = Inr replacements"
  shows "sorted_wrt span_before replacements"
proof -
  from assms(2) obtain reps cursor where
    l: "computeReplacements_loop lines fp chunks ([], 0) = Inr (reps, cursor)" and
    s: "replacements = sort_key fst reps"
    by (auto simp: computeReplacements_def split: sum.splits)
  have i0: "spans_inv lines ([], 0)" by (simp add: spans_inv_def)
  note inv = computeReplacements_loop_spans_inv [OF assms(1) l i0]
  let ?ms = "filter (\<lambda>r. \<not> is_append lines r) reps"
  let ?as = "filter (is_append lines) reps"
  have m: "sorted_wrt span_before ?ms"
    using inv by (simp add: spans_inv_def)
  have "sorted_wrt (\<lambda>u v. True) ?as" by simp
  then have a: "sorted_wrt span_before ?as"
    by (rule sorted_wrt_mono_rel [rotated]) (auto simp: is_append_def span_before_def)
  have x: "span_before u v" if "u \<in> set ?ms" "v \<in> set ?as" for u v
    using that inv by (auto simp: spans_inv_def is_append_def span_before_def)
  show ?thesis
    unfolding s sort_spans [OF inv]
    using m a x by (simp add: sorted_wrt_append)
qed

text \<open>
  Claim C5.  The claim: the replacements emitted for one file never overlap.  The code
  on the file \<^verbatim>\<open>a\<close>, \<^verbatim>\<open>b\<close> and the chunks of \<^verbatim>\<open>@@ a\<close>, \<^verbatim>\<open>+x\<close>, \<^verbatim>\<open>@@\<close>, \<^verbatim>\<open>-a\<close>: the
  insertion at the context replaces line 0 and leaves the cursor on it, so the next chunk
  matches line 0 again and both replacements have the span \<open>(0, 1)\<close>.  Applied, they also
  delete line \<^verbatim>\<open>b\<close>, which no chunk mentions.
\<close>

theorem computeReplacements_overlap:
  "computeReplacements [''a'', ''b''] ''f''
     [\<lparr>old_lines = [], new_lines = [''x''], change_context = Some ''a'', is_end_of_file = None\<rparr>,
      \<lparr>old_lines = [''a''], new_lines = [], change_context = None, is_end_of_file = None\<rparr>] =
     Inr [(0, 1, [''x'']), (0, 1, [])] \<and>
   \<not> span_before (0, 1, [''x'']) (0, 1, []) \<and>
   applyReplacements [''a'', ''b''] [(0, 1, [''x'']), (0, 1, [])] = [''x'']"
  by (simp add: computeReplacements_def chunk_step_def seekSequence_def seek_from.simps
      line_at_def truthy_def applyReplacements_def apply_replacement_def splice_delete_def
      splice_insert_def splice_start_def span_before_def)

end
